theory Spec2Isabelle
  imports Main "HOL-Library.Word"
begin

unbundle bit_operations_syntax

section \<open>Machine types and constants of battleship.c\<close>

text \<open>
  \<open>unsigned char\<close> is an 8-bit word; \<open>int\<close> and \<open>unsigned int\<close> are 32-bit words
  (the Nios II target), read as signed only where the source compares them as \<open>int\<close>.
  Arithmetic on them wraps, as unsigned arithmetic in C does.
\<close>

type_synonym u8 = "8 word"
type_synonym u32 = "32 word"

definition bufLen :: nat where "bufLen = 10"
definition SMALL_SHIP_LENGTH :: nat where "SMALL_SHIP_LENGTH = 3"
definition LARGE_SHIP_LENGTH :: nat where "LARGE_SHIP_LENGTH = 4"
definition BOARD_WIDTH :: u32 where "BOARD_WIDTH = 8"
definition BOARD_HEIGHT :: u32 where "BOARD_HEIGHT = 8"
definition shotsBase :: u32 where "shotsBase = 0"
definition hitsBase :: u32 where "hitsBase = 8"
definition boardBase :: u32 where "boardBase = 16"

section \<open>Outcomes of a call\<close>

text \<open>
  A call either returns (\<open>Inr\<close>) or does not (\<open>Inl\<close>): it waits for ever on the
  console or the link (\<open>Blocked\<close>), shifts by an amount for which C defines no result
  (\<open>UndefinedShift\<close>), or writes past the end of a buffer (\<open>BufferOverflow\<close>).
\<close>

datatype fault = Blocked | UndefinedShift | BufferOverflow

definition andThen :: "fault + 'a \<Rightarrow> ('a \<Rightarrow> fault + 'b) \<Rightarrow> fault + 'b" where
  "andThen m f = (case m of Inl e \<Rightarrow> Inl e | Inr x \<Rightarrow> f x)"

text \<open>
  The shift operators of C on a promoted \<open>int\<close> operand. \<open>E1 >> E2\<close> and \<open>E1 << E2\<close>
  are undefined when \<open>E2\<close> is at least the width of \<open>int\<close>; \<open>E1 << E2\<close> is also
  undefined when \<open>E1 * 2 ^ E2\<close> is not representable in \<open>int\<close>.
\<close>

definition c_shr :: "u32 \<Rightarrow> u32 \<Rightarrow> fault + u32" where
  "c_shr v n = (if n < 32 then Inr (drop_bit (unat n) v) else Inl UndefinedShift)"

definition c_shl :: "u32 \<Rightarrow> u32 \<Rightarrow> fault + u32" where
  "c_shl v n =
     (if n < 32 \<and> uint v * 2 ^ unat n < 2 ^ 31 then Inr (push_bit (unat n) v)
      else Inl UndefinedShift)"

section \<open>The program state\<close>

text \<open>
  Signals the program drives on the link, in the order it drives them, and the messages
  of the console that report a failure or the outcome. Prompts, the banner and the
  renderings of the boards only write to the console and are not recorded.
\<close>

datatype signal = DataOut u8 | Load u8 | TransEn u8 | CharRead u8

datatype message = ParityError u8 | OffMapOrTaken | YouWin | YouLose

text \<open>
  The global variables of the program, the external store behind \<open>readSRAM\<close> and
  \<open>writeSRAM\<close> (addressed by the byte written to the address register), the two locals
  of \<open>main\<close> that live across turns, and the environment: the characters still to come
  from the console, the values the program will read from \<open>*char_sent\<close>, and what
  each poll of \<open>*char_recv\<close> will find (\<open>None\<close>: no byte available; \<open>Some d\<close>: a byte
  is available and \<open>*data_in\<close> holds \<open>d\<close>).
\<close>

record game =
  sram :: "u8 \<Rightarrow> u8"
  inputBuffer :: "nat \<Rightarrow> u8"
  outputBuffer :: "nat \<Rightarrow> u8"
  sent :: u8
  parity :: u8
  enemyHits :: u32
  yourHits :: u32
  yourShotX :: u32
  yourShotY :: u32
  theirShotX :: u32
  theirShotY :: u32
  yourTurn :: u32
  notValidMove :: u32
  stdin :: "u8 list"
  char_sent :: "u8 list"
  char_recv :: "u8 option list"
  wire :: "signal list"
  console :: "message list"

section \<open>Characters, bounds, parity and masks\<close>

definition charToInt :: "u8 \<Rightarrow> u32" where
  "charToInt c = (if 64 < c then ucast c - 64 else ucast c - 48)"

definition checkIndex :: "u32 \<Rightarrow> u32 \<Rightarrow> u32" where
  "checkIndex x y =
     (if word_sle 0 x \<and> x \<le> BOARD_WIDTH \<and> word_sle 0 y \<and> y \<le> BOARD_HEIGHT then 0 else 1)"

text \<open>
  \<open>computeParity\<close> takes a \<open>char\<close>, signed on this target, so \<open>>>\<close> shifts
  arithmetically; \<open>computeParity_logical\<close> below shows that the result is the same
  where \<open>char\<close> is unsigned.
\<close>

definition computeParity :: "u8 \<Rightarrow> u8" where
  "computeParity character =
     (let c1 = character XOR signed_drop_bit 4 character;
          c2 = c1 XOR signed_drop_bit 2 c1;
          c3 = c2 XOR signed_drop_bit 1 c2
      in c3 AND 1)"

definition createByte :: "u32 \<Rightarrow> fault + u8" where
  "createByte x = andThen (c_shl 1 (BOARD_WIDTH - x)) (\<lambda>v. Inr (ucast v))"

section \<open>The store\<close>

definition readSRAM :: "u32 \<Rightarrow> game \<Rightarrow> u8" where
  "readSRAM addr s = sram s (ucast addr)"

definition writeSRAM :: "u32 \<Rightarrow> u8 \<Rightarrow> game \<Rightarrow> game" where
  "writeSRAM addr byte s = s\<lparr>sram := (sram s)(ucast addr := byte)\<rparr>"

definition checkMove :: "u32 \<Rightarrow> u32 \<Rightarrow> u32 \<Rightarrow> game \<Rightarrow> fault + u32" where
  "checkMove x y boardAddr s =
     (let byte = readSRAM (boardAddr + (y - 1)) s in
      andThen (c_shr (ucast byte) (BOARD_WIDTH - x)) (\<lambda>v.
        let byte' = (ucast v :: u8) in Inr (ucast byte' AND 1)))"

definition setIndexHigh :: "u32 \<Rightarrow> u32 \<Rightarrow> u32 \<Rightarrow> game \<Rightarrow> fault + game" where
  "setIndexHigh x y base s =
     (let byte = readSRAM (base + y - 1) s in
      andThen (createByte x) (\<lambda>m.
        Inr (writeSRAM (base + y - 1) (m OR byte) s)))"

definition updateEnemyBoard :: "u32 \<Rightarrow> game \<Rightarrow> fault + game" where
  "updateEnemyBoard board s =
     (let row = readSRAM (yourShotY s - 1 + board) s in
      andThen (createByte (yourShotX s)) (\<lambda>m.
        let newRow = row OR m in
        Inr (writeSRAM (yourShotY s - 1 + board) newRow s)))"

definition updateYourBoard :: "game \<Rightarrow> fault + game" where
  "updateYourBoard s =
     (let byte = readSRAM (boardBase + theirShotY s - 1) s in
      andThen (c_shr (ucast byte) (BOARD_WIDTH - theirShotX s)) (\<lambda>v.
        let hit = v AND 1 in
        if hit \<noteq> 0 then
          andThen (createByte (theirShotX s)) (\<lambda>m.
            let s1 = writeSRAM (boardBase + theirShotY s - 1)
                       (ucast (NOT (ucast m :: u32) AND ucast byte)) s
            in Inr (s1\<lparr>enemyHits := enemyHits s1 + 1,
                        outputBuffer := (outputBuffer s1)(0 := 49, 1 := 0)\<rparr>))
        else Inr (s\<lparr>outputBuffer := (outputBuffer s)(0 := 48, 1 := 0)\<rparr>)))"

definition eraseSRAM :: "game \<Rightarrow> game" where
  "eraseSRAM s = fold (\<lambda>i. writeSRAM (of_nat i) 0) [0..<30] s"

definition translateOutputBuffer :: "game \<Rightarrow> game" where
  "translateOutputBuffer s =
     s\<lparr>yourShotY := charToInt (outputBuffer s 0), yourShotX := charToInt (outputBuffer s 1)\<rparr>"

definition translateInputBuffer :: "game \<Rightarrow> game" where
  "translateInputBuffer s =
     s\<lparr>theirShotY := charToInt (inputBuffer s 0), theirShotX := charToInt (inputBuffer s 1)\<rparr>"

section \<open>The console\<close>

definition alt_getchar :: "game \<Rightarrow> fault + (u8 \<times> game)" where
  "alt_getchar s = (case stdin s of [] \<Rightarrow> Inl Blocked | c # cs \<Rightarrow> Inr (c, s\<lparr>stdin := cs\<rparr>))"

text \<open>
  The loop of \<open>enterString\<close>: \<open>i\<close> and \<open>c\<close> are its locals, the list holds the
  characters still to come. The result gives the final \<open>i\<close>, the characters left and
  the buffer.
\<close>

fun enterString_loop ::
  "nat \<Rightarrow> u8 \<Rightarrow> u8 list \<Rightarrow> (nat \<Rightarrow> u8) \<Rightarrow> fault + (nat \<times> u8 list \<times> (nat \<Rightarrow> u8))" where
  "enterString_loop i c [] buf =
     (if c \<noteq> 10 then (if i < bufLen then Inl Blocked else Inl BufferOverflow)
      else Inr (i, [], buf))"
| "enterString_loop i c (c' # cs) buf =
     (if c \<noteq> 10 then
        (if i < bufLen then enterString_loop (Suc i) c' cs (buf(i := c))
         else Inl BufferOverflow)
      else Inr (i, c' # cs, buf))"

definition enterString :: "game \<Rightarrow> fault + game" where
  "enterString s =
     andThen (alt_getchar s) (\<lambda>(c, s1).
     andThen (enterString_loop 0 c (stdin s1) (outputBuffer s1)) (\<lambda>(i, cs, buf).
       if i < bufLen then Inr (s1\<lparr>stdin := cs, outputBuffer := buf(i := 0)\<rparr>)
       else Inl BufferOverflow))"

section \<open>The link\<close>

text \<open>
  \<open>while (*char_sent == 0)\<close>: the reads of the register up to and including the first
  that is not zero.
\<close>

fun await_char_sent :: "u8 list \<Rightarrow> fault + u8 list" where
  "await_char_sent [] = Inl Blocked"
| "await_char_sent (v # vs) = (if v = 0 then await_char_sent vs else Inr vs)"

definition sendChar :: "u8 \<Rightarrow> game \<Rightarrow> fault + game" where
  "sendChar c s =
     (let s1 = s\<lparr>sent := c\<rparr>;
          s2 = s1\<lparr>parity := sent s1\<rparr>;
          s3 = s2\<lparr>parity := computeParity (parity s2)\<rparr>;
          s4 = s3\<lparr>sent := push_bit 1 (sent s3)\<rparr>;
          s5 = s4\<lparr>sent := parity s4 + sent s4\<rparr>;
          s6 = s5\<lparr>wire := wire s5 @ [DataOut (sent s5), Load 1, TransEn 1, Load 0]\<rparr>
      in andThen (await_char_sent (char_sent s6)) (\<lambda>vs.
           Inr (s6\<lparr>char_sent := vs, wire := wire s6 @ [TransEn 0]\<rparr>)))"

text \<open>
  The loop of \<open>readString\<close>: \<open>i\<close> and \<open>received\<close> are its locals, the list holds the
  polls of \<open>*char_recv\<close> still to come. The result is the value returned and the state.
\<close>

fun readString_loop :: "nat \<Rightarrow> u8 \<Rightarrow> u8 option list \<Rightarrow> game \<Rightarrow> fault + (u32 \<times> game)" where
  "readString_loop i received [] s =
     (if received \<noteq> 0 then Inl Blocked else Inr (0, s\<lparr>char_recv := []\<rparr>))"
| "readString_loop i received (p # ps) s =
     (if received \<noteq> 0 then
        (case p of
           None \<Rightarrow> readString_loop i received ps s
         | Some d \<Rightarrow>
            (let received1 = d;
                 s1 = s\<lparr>parity := received1 AND 1\<rparr>;
                 received2 = drop_bit 1 received1
             in if computeParity received2 = parity s1 then
                  (if i < bufLen then
                     readString_loop (Suc i) received2 ps
                       (s1\<lparr>inputBuffer := (inputBuffer s1)(i := received2),
                           wire := wire s1 @ [CharRead 1, CharRead 0]\<rparr>)
                   else Inl BufferOverflow)
                else Inr (1, s1\<lparr>console := console s1 @ [ParityError d],
                                  wire := wire s1 @ [CharRead 1, CharRead 0],
                                  char_recv := ps\<rparr>)))
      else Inr (0, s\<lparr>char_recv := p # ps\<rparr>))"

definition readString :: "game \<Rightarrow> fault + (u32 \<times> game)" where
  "readString s = readString_loop 0 1 (char_recv s) s"

function sendString_loop :: "nat \<Rightarrow> game \<Rightarrow> fault + game" where
  "sendString_loop i s =
     (if i < bufLen then
        (if outputBuffer s i = 0 then sendChar (outputBuffer s i) s
         else andThen (sendChar (outputBuffer s i) s) (sendString_loop (Suc i)))
      else Inr s)"
  by pat_completeness auto
termination
  by (relation "measure (\<lambda>(i, s). bufLen - i)") auto

definition sendString :: "game \<Rightarrow> fault + game" where
  "sendString s = sendString_loop 0 s"

section \<open>Placing the ships\<close>

text \<open>
  The condition \<open>checkMove(x, y, base) || checkIndex(x, y)\<close>, as \<open>setUpBoats\<close> and
  \<open>main\<close> write it: \<open>checkMove\<close> is evaluated first, \<open>checkIndex\<close> only when
  \<open>checkMove\<close> returned 0.
\<close>

definition checkMove_or_checkIndex :: "u32 \<Rightarrow> u32 \<Rightarrow> u32 \<Rightarrow> game \<Rightarrow> fault + u32" where
  "checkMove_or_checkIndex x y base s =
     andThen (checkMove x y base s) (\<lambda>m.
       Inr (if m \<noteq> 0 then 1 else if checkIndex x y \<noteq> 0 then 1 else 0))"

text \<open>
  \<open>do { orientation = alt_getchar(); alt_getchar(); } while (orientation != 'h' &&
  orientation != 'v')\<close>, on the characters still to come.
\<close>

fun readOrientation :: "u8 list \<Rightarrow> fault + (u8 \<times> u8 list)" where
  "readOrientation (c # nl # cs) =
     (if c \<noteq> 104 \<and> c \<noteq> 118 then readOrientation cs else Inr (c, cs))"
| "readOrientation cs = Inl Blocked"

text \<open>
  The first inner loop of \<open>setUpBoats\<close>, over \<open>j = i - 1, ..., 0\<close>: it stops at the
  first cell for which the condition holds, after printing the message.
\<close>

fun checkCells :: "u8 \<Rightarrow> u8 \<Rightarrow> u8 \<Rightarrow> nat list \<Rightarrow> u32 \<Rightarrow> game \<Rightarrow> fault + (u32 \<times> game)" where
  "checkCells xCoor yCoor orientation [] check s = Inr (check, s)"
| "checkCells xCoor yCoor orientation (j # js) check s =
     andThen
       (if orientation = 118
        then checkMove_or_checkIndex (ucast xCoor) (ucast yCoor + of_nat j) boardBase s
        else checkMove_or_checkIndex (ucast xCoor + of_nat j) (ucast yCoor) boardBase s)
       (\<lambda>check'.
          if check' \<noteq> 0 then Inr (check', s\<lparr>console := console s @ [OffMapOrTaken]\<rparr>)
          else checkCells xCoor yCoor orientation js check' s)"

fun setCells :: "u8 \<Rightarrow> u8 \<Rightarrow> u8 \<Rightarrow> nat list \<Rightarrow> game \<Rightarrow> fault + game" where
  "setCells xCoor yCoor orientation [] s = Inr s"
| "setCells xCoor yCoor orientation (j # js) s =
     andThen
       (if orientation = 118
        then setIndexHigh (ucast xCoor) (ucast yCoor + of_nat j) boardBase s
        else setIndexHigh (ucast xCoor + of_nat j) (ucast yCoor) boardBase s)
       (setCells xCoor yCoor orientation js)"

text \<open>
  One round of the \<open>do ... while (check)\<close> loop for the ship of length \<open>i\<close>, after the
  coordinates and the orientation have been read.
\<close>

definition placeAttempt :: "nat \<Rightarrow> u8 \<Rightarrow> u8 \<Rightarrow> u8 \<Rightarrow> u32 \<Rightarrow> game \<Rightarrow> fault + (u32 \<times> game)" where
  "placeAttempt i xCoor yCoor orientation check s =
     andThen (checkCells xCoor yCoor orientation (rev [0..<i]) check s) (\<lambda>(check', s1).
       if check' = 0 then
         andThen (setCells xCoor yCoor orientation (rev [0..<i]) s1) (\<lambda>s2. Inr (check', s2))
       else Inr (check', s1))"

text \<open>
  The \<open>do ... while (check)\<close> loop for the ship of length \<open>i\<close>, on the characters
  still to come.
\<close>

function placeShip :: "nat \<Rightarrow> u32 \<Rightarrow> u8 list \<Rightarrow> game \<Rightarrow> fault + (u32 \<times> u8 list \<times> game)" where
  "placeShip i check cs s =
     (case cs of
        yc # xc # nl # cs1 \<Rightarrow>
          (case readOrientation cs1 of
             Inl e \<Rightarrow> Inl e
           | Inr (orientation, cs2) \<Rightarrow>
               (case placeAttempt i (ucast (charToInt xc)) (ucast (charToInt yc))
                       orientation check s of
                  Inl e \<Rightarrow> Inl e
                | Inr (check', s1) \<Rightarrow>
                    if check' \<noteq> 0 then placeShip i check' cs2 s1
                    else Inr (check', cs2, s1)))
      | _ \<Rightarrow> Inl Blocked)"
  by pat_completeness auto
termination
proof -
  have len: "readOrientation cs = Inr (c, cs') \<Longrightarrow> length cs' \<le> length cs" for cs c cs'
    by (induction cs rule: readOrientation.induct) (auto split: if_splits)
  show ?thesis
    by (relation "measure (\<lambda>(i, check, cs, s). length cs)") (auto dest: len)
qed

fun setUpBoats_loop :: "nat list \<Rightarrow> u32 \<Rightarrow> game \<Rightarrow> fault + game" where
  "setUpBoats_loop [] check s = Inr s"
| "setUpBoats_loop (i # is) check s =
     andThen (placeShip i check (stdin s) s) (\<lambda>(check', cs, s1).
       setUpBoats_loop is check' (s1\<lparr>stdin := cs\<rparr>))"

definition setUpBoats :: "game \<Rightarrow> fault + game" where
  "setUpBoats s = setUpBoats_loop (rev [SMALL_SHIP_LENGTH..<Suc LARGE_SHIP_LENGTH]) 0 s"

section \<open>The match\<close>

text \<open>\<open>for (i = SMALL_SHIP_LENGTH; i <= LARGE_SHIP_LENGTH; i++) totalHits += i\<close>.\<close>

definition totalHits :: u32 where
  "totalHits = fold (\<lambda>i t. t + of_nat i) [SMALL_SHIP_LENGTH..<Suc LARGE_SHIP_LENGTH] 0"

text \<open>
  The state in which \<open>main\<close> starts: C sets the global variables to zero, the store
  holds what it held at power-up, and the environment is as given.
\<close>

definition initial :: "(u8 \<Rightarrow> u8) \<Rightarrow> u8 list \<Rightarrow> u8 list \<Rightarrow> u8 option list \<Rightarrow> game" where
  "initial mem keys acks polls =
     \<lparr>sram = mem, inputBuffer = (\<lambda>i. 0), outputBuffer = (\<lambda>i. 0), sent = 0, parity = 0,
      enemyHits = 0, yourHits = 0, yourShotX = 0, yourShotY = 0, theirShotX = 0,
      theirShotY = 0, yourTurn = 0, notValidMove = 0, stdin = keys, char_sent = acks,
      char_recv = polls, wire = [], console = []\<rparr>"

text \<open>\<open>main\<close> up to the loop of turns.\<close>

definition main_setup :: "game \<Rightarrow> fault + game" where
  "main_setup s =
     (let s1 = s\<lparr>wire := wire s @ [CharRead 1, CharRead 0]\<rparr>;
          s2 = eraseSRAM s1
      in andThen (setUpBoats s2) (\<lambda>s3.
         andThen (alt_getchar (s3\<lparr>notValidMove := 1\<rparr>)) (\<lambda>(c, s4).
           let player = charToInt c;
               s5 = s4\<lparr>yourTurn := 2 - player\<rparr>
           in andThen (alt_getchar s5) (\<lambda>(nl, s6). Inr s6))))"

text \<open>\<open>while (notValidMove) { ... }\<close>, the loop that asks for the coordinate to fire at.\<close>

function fireLoop :: "game \<Rightarrow> fault + game" where
  "fireLoop s =
     (if notValidMove s \<noteq> 0 then
        (case enterString s of
           Inl e \<Rightarrow> Inl e
         | Inr s1 \<Rightarrow>
             (let s2 = translateOutputBuffer s1 in
              case checkMove_or_checkIndex (yourShotX s2) (yourShotY s2) shotsBase s2 of
                Inl e \<Rightarrow> Inl e
              | Inr v \<Rightarrow> fireLoop (s2\<lparr>notValidMove := v\<rparr>)))
      else Inr s)"
  by pat_completeness auto
termination
proof -
  have loop: "enterString_loop i c cs buf = Inr (k, cs', buf') \<Longrightarrow> length cs' \<le> length cs"
    for i c cs buf k cs' buf'
    by (induction i c cs buf rule: enterString_loop.induct) (auto split: if_splits)
  have enter: "enterString s = Inr s1 \<Longrightarrow> length (stdin s1) < length (stdin s)" for s s1
    by (auto simp: enterString_def alt_getchar_def andThen_def
          split: list.splits sum.splits if_splits dest!: loop)
  show ?thesis
    by (relation "measure (\<lambda>s. length (stdin s))")
       (auto simp: translateOutputBuffer_def dest: enter)
qed

text \<open>
  The two branches of the loop of \<open>main\<close>. Both call \<open>readString\<close> as a statement:
  the value it returns is not looked at.
\<close>

definition localTurn :: "game \<Rightarrow> fault + game" where
  "localTurn s =
     andThen (fireLoop s) (\<lambda>s1.
     andThen (sendString s1) (\<lambda>s2.
     andThen (readString s2) (\<lambda>(r, s3).
     andThen (updateEnemyBoard shotsBase s3) (\<lambda>s4.
       let s5 = translateInputBuffer s4 in
       andThen
         (if charToInt (inputBuffer s5 0) \<noteq> 0 then
            andThen (updateEnemyBoard hitsBase s5) (\<lambda>s6.
              Inr (s6\<lparr>yourHits := yourHits s6 + 1\<rparr>))
          else Inr s5)
         (\<lambda>s7. Inr (s7\<lparr>notValidMove := 1, yourTurn := 0\<rparr>))))))"

definition remoteTurn :: "game \<Rightarrow> fault + game" where
  "remoteTurn s =
     andThen (readString s) (\<lambda>(r, s1).
       let s2 = translateInputBuffer s1 in
       andThen (updateYourBoard s2) (\<lambda>s3.
       andThen (sendString s3) (\<lambda>s4.
         Inr (s4\<lparr>yourTurn := 1\<rparr>))))"

definition playing :: "game \<Rightarrow> bool" where
  "playing s \<longleftrightarrow> yourHits s \<noteq> totalHits \<and> enemyHits s \<noteq> totalHits"

definition turn :: "game \<Rightarrow> fault + game" where
  "turn s = (if yourTurn s \<noteq> 0 then localTurn s else remoteTurn s)"

text \<open>
  \<open>while (yourHits != totalHits && enemyHits != totalHits)\<close>. The loop has no bound
  of its own, so a run that never leaves it has the result \<open>None\<close>.
\<close>

partial_function (option) mainLoop :: "game \<Rightarrow> (fault + game) option" where
  "mainLoop s =
     (if playing s then
        (case turn s of Inl e \<Rightarrow> Some (Inl e) | Inr s' \<Rightarrow> mainLoop s')
      else Some (Inr s))"

definition report :: "game \<Rightarrow> game" where
  "report s =
     (if yourHits s = totalHits then s\<lparr>console := console s @ [YouWin]\<rparr>
      else s\<lparr>console := console s @ [YouLose]\<rparr>)"

definition main :: "game \<Rightarrow> (fault + game) option" where
  "main s =
     (case main_setup s of
        Inl e \<Rightarrow> Some (Inl e)
      | Inr s1 \<Rightarrow>
          (case mainLoop s1 of
             None \<Rightarrow> None
           | Some (Inl e) \<Rightarrow> Some (Inl e)
           | Some (Inr s2) \<Rightarrow> Some (Inr (report s2))))"

text \<open>
  The state at the head of the loop of \<open>main\<close> after \<open>n\<close> more tests of its condition:
  a turn is taken while the condition holds, and the state stays once it fails.
\<close>

primrec turns :: "nat \<Rightarrow> game \<Rightarrow> fault + game" where
  "turns 0 s = Inr s"
| "turns (Suc n) s = andThen (turns n s) (\<lambda>s'. if playing s' then turn s' else Inr s')"

section \<open>What is observed of a run\<close>

text \<open>
  The bytes put on the data lines, the bytes a sequence of polls delivers, the string a
  buffer holds (its bytes before the first zero), and the byte \<open>sendChar\<close> puts on the
  data lines for a character: \<open>sent\<close> is an \<open>unsigned char\<close>, so the shift drops
  the top bit of the character and the frame has eight bits, the parity bit lowest.
\<close>

fun frames_of :: "signal list \<Rightarrow> u8 list" where
  "frames_of [] = []"
| "frames_of (DataOut d # w) = d # frames_of w"
| "frames_of (e # w) = frames_of w"

fun delivered :: "u8 option list \<Rightarrow> u8 list" where
  "delivered [] = []"
| "delivered (None # ps) = delivered ps"
| "delivered (Some d # ps) = d # delivered ps"

definition cstring :: "(nat \<Rightarrow> u8) \<Rightarrow> u8 list" where
  "cstring buf = takeWhile (\<lambda>c. c \<noteq> 0) (map buf [0..<bufLen])"

definition frame :: "u8 \<Rightarrow> u8" where
  "frame c = computeParity c + push_bit 1 c"

text \<open>The two counters of hits.\<close>

definition counters :: "game \<Rightarrow> u32 \<times> u32" where
  "counters s = (yourHits s, enemyHits s)"

section \<open>Facts about the arithmetic of the code\<close>

text \<open>The equations of the loops are unfolded by hand, one round at a time.\<close>

declare fireLoop.simps [simp del] sendString_loop.simps [simp del] placeShip.simps [simp del]

lemma small_sle: "(x::u32) \<le> 8 \<Longrightarrow> word_sle 0 x"
proof -
  assume "x \<le> 8"
  then have "uint x \<le> 8" by (simp add: word_le_def)
  then have "signed_take_bit 31 (uint x) = uint x"
    by (intro signed_take_bit_int_eq_self) (auto intro: order_trans [of _ 0])
  then have "sint x = uint x" by (simp add: sint_uint)
  then show ?thesis by (simp add: word_sle_eq)
qed

lemma checkIndex_iff: "checkIndex x y = 0 \<longleftrightarrow> x \<le> 8 \<and> y \<le> 8"
  by (auto simp: checkIndex_def BOARD_WIDTH_def BOARD_HEIGHT_def small_sle)

lemma and_1_bit:
  "ucast (ucast (drop_bit n (ucast (b::u8) :: u32)) :: u8) AND (1::u32) = of_bool (bit b n)"
  by (rule bit_word_eqI) (auto simp: bit_simps dest: bit_imp_le_length)

lemma shr_and_1: "drop_bit k (ucast (b::u8) :: u32) AND 1 = of_bool (bit b k)"
  by (rule bit_word_eqI) (auto simp: bit_simps dest: bit_imp_le_length)

lemma checkMove_eq:
  "BOARD_WIDTH - x < 32 \<Longrightarrow>
   checkMove x y base s =
     Inr (of_bool (bit (sram s (ucast (base + (y - 1)))) (unat (BOARD_WIDTH - x))))"
  by (simp add: checkMove_def c_shr_def andThen_def Let_def readSRAM_def and_1_bit)

lemma c_shl_1: "c_shl 1 n = (if n < 31 then Inr (push_bit (unat n) 1) else Inl UndefinedShift)"
proof -
  have p: "(2::int) ^ k < 2 ^ 31 \<longleftrightarrow> k < 31" for k :: nat
    by (rule power_strict_increasing_iff) simp
  have e: "(n < 32 \<and> uint (1::u32) * 2 ^ unat n < 2 ^ 31) \<longleftrightarrow> n < 31"
    unfolding uint_1 mult_1 p by (auto simp: word_less_nat_alt)
  show ?thesis unfolding c_shl_def e by (rule refl)
qed

lemma createByte_eq:
  "createByte x =
     (if BOARD_WIDTH - x < 31 then Inr (push_bit (unat (BOARD_WIDTH - x)) 1)
      else Inl UndefinedShift)"
  apply (simp add: createByte_def c_shl_1 andThen_def)
  apply (rule impI)
  apply (rule bit_word_eqI)
  apply (auto simp: bit_simps)
  done

lemma col_shift:
  "1 \<le> x \<Longrightarrow> x \<le> (8::u32) \<Longrightarrow>
   BOARD_WIDTH - x < 31 \<and> unat (BOARD_WIDTH - x) = 8 - unat x \<and> unat x \<le> 8 \<and> 1 \<le> unat x"
  by (simp add: BOARD_WIDTH_def unat_sub word_le_nat_alt word_less_nat_alt)

lemma createByte_col: "1 \<le> x \<Longrightarrow> x \<le> 8 \<Longrightarrow> createByte x = Inr (push_bit (8 - unat x) 1)"
  using col_shift [of x] by (simp add: createByte_eq)

lemma clear_mask: "(ucast (NOT (ucast (m::u8) :: u32) AND ucast (b::u8)) :: u8) = b AND NOT m"
  by (rule bit_word_eqI) (auto simp: bit_simps)

lemma or_bit: "k < 8 \<Longrightarrow> bit ((b::u8) OR push_bit k 1) j = (bit b j \<or> j = k)"
  by (auto simp: bit_simps)

lemma clear_bit: "k < 8 \<Longrightarrow> bit ((b::u8) AND NOT (push_bit k 1)) j = (bit b j \<and> j \<noteq> k)"
  by (auto simp: bit_simps dest: bit_imp_le_length)

subsection \<open>Parity\<close>

lemma signed_drop_bit_xor:
  "signed_drop_bit n (a XOR b) = signed_drop_bit n a XOR signed_drop_bit n (b::u8)"
  by (rule bit_word_eqI) (simp add: bit_signed_drop_bit_iff bit_xor_iff)

lemma computeParity_xor: "computeParity (a XOR b) = computeParity a XOR computeParity b"
proof -
  define f where "f n c = c XOR signed_drop_bit n c" for n and c :: u8
  have f_xor: "f n (x XOR y) = f n x XOR f n y" for n x y
    by (simp add: f_def signed_drop_bit_xor ac_simps)
  have cp: "computeParity c = f 1 (f 2 (f 4 c)) AND 1" for c
    by (simp add: computeParity_def Let_def f_def)
  show ?thesis
    by (simp only: cp f_xor bit.conj_xor_distrib2)
qed

lemma computeParity_mask: "i < 8 \<Longrightarrow> computeParity (push_bit i 1) = 1"
proof -
  assume "i < 8"
  then consider "i = 0" | "i = 1" | "i = 2" | "i = 3" | "i = 4" | "i = 5" | "i = 6" | "i = 7"
    by linarith
  then show ?thesis by cases (simp_all add: computeParity_def Let_def)
qed

text \<open>The parity is the same where \<open>char\<close> is unsigned and \<open>>>\<close> shifts in zeros.\<close>

lemma computeParity_logical:
  "computeParity c =
     (let c1 = c XOR drop_bit 4 c; c2 = c1 XOR drop_bit 2 c1; c3 = c2 XOR drop_bit 1 c2
      in c3 AND 1)"
  by (rule bit_word_eqI)
     (simp add: computeParity_def Let_def bit_and_iff bit_xor_iff bit_signed_drop_bit_iff
        bit_drop_bit_eq bit_1_iff)

subsection \<open>The link\<close>

lemma frames_of_append: "frames_of (u @ w) = frames_of u @ frames_of w"
  by (induction u rule: frames_of.induct) simp_all

lemma cstring_props:
  assumes "length (cstring buf) < bufLen"
  shows "buf (length (cstring buf)) = 0"
    and "i < length (cstring buf) \<Longrightarrow> buf i = cstring buf ! i \<and> buf i \<noteq> 0"
proof -
  let ?xs = "map buf [0..<bufLen]"
  have len: "length (takeWhile (\<lambda>c. c \<noteq> 0) ?xs) < length ?xs"
    using assms by (simp add: cstring_def)
  from nth_length_takeWhile [OF len]
  show "buf (length (cstring buf)) = 0"
    using assms by (simp add: cstring_def)
  assume i: "i < length (cstring buf)"
  then have "cstring buf ! i = ?xs ! i"
    unfolding cstring_def by (rule takeWhile_nth)
  moreover have "cstring buf ! i \<in> set (cstring buf)" using i by simp
  then have "cstring buf ! i \<noteq> 0" unfolding cstring_def by (auto dest: set_takeWhileD)
  ultimately show "buf i = cstring buf ! i \<and> buf i \<noteq> 0"
    using i assms by simp
qed

lemma cstring_eqI:
  assumes "length cs < bufLen" "\<And>j. j < length cs \<Longrightarrow> buf j = cs ! j" "0 \<notin> set cs"
    "buf (length cs) = 0"
  shows "cstring buf = cs"
proof -
  let ?xs = "map buf [0..<bufLen]"
  have "takeWhile (\<lambda>c. c \<noteq> 0) ?xs = take (length cs) ?xs"
  proof (rule takeWhile_eq_take_P_nth)
    fix i assume "i < length cs" "i < length ?xs"
    then show "?xs ! i \<noteq> 0" using assms(2) [of i] assms(3) by (auto simp: in_set_conv_nth)
  next
    assume "length cs < length ?xs"
    then show "\<not> ?xs ! length cs \<noteq> 0" using assms(4) by simp
  qed
  also have "\<dots> = cs"
    using assms(1,2) by (auto simp: list_eq_iff_nth_eq)
  finally show ?thesis by (simp add: cstring_def)
qed

lemma await_char_sent_filter:
  "filter (\<lambda>v. v \<noteq> 0) vs \<noteq> [] \<Longrightarrow>
   \<exists>vs'. await_char_sent vs = Inr vs' \<and> filter (\<lambda>v. v \<noteq> 0) vs' = tl (filter (\<lambda>v. v \<noteq> 0) vs)"
  by (induction vs) auto

lemma sendChar_eq:
  "sendChar c s =
     (case await_char_sent (char_sent s) of
        Inl e \<Rightarrow> Inl e
      | Inr vs \<Rightarrow> Inr (s\<lparr>sent := frame c, parity := computeParity c, char_sent := vs,
            wire := wire s @ [DataOut (frame c), Load 1, TransEn 1, Load 0, TransEn 0]\<rparr>))"
  by (simp add: sendChar_def frame_def andThen_def Let_def split: sum.splits)



lemma computeParity_cases: "computeParity c = 0 \<or> computeParity c = 1"
proof -
  have "(w::u8) AND 1 = 0 \<or> w AND 1 = 1" for w
    by (cases "odd w") (simp_all add: and_one_eq mod_2_eq_odd)
  then show ?thesis by (simp add: computeParity_def Let_def)
qed

lemma top_bit_clear: "(c::u8) < 128 \<Longrightarrow> \<not> bit c 7"
proof -
  assume "c < 128"
  then have "unat c < 128" by (simp add: word_less_nat_alt)
  then have "unat c div 2 ^ 7 = 0" by simp
  then have "\<not> bit (unat c) 7" unfolding bit_iff_odd by simp
  then show ?thesis by (simp add: bit_unsigned_iff)
qed

lemma low_bits: "\<not> bit (c::u8) 7 \<Longrightarrow> bit c n \<Longrightarrow> Suc n < 8"
proof -
  assume t: "\<not> bit c 7" and b: "bit c n"
  from b have "n < 8" by (auto dest: bit_imp_le_length)
  moreover from t b have "n \<noteq> 7" by auto
  ultimately show ?thesis by arith
qed

lemma frame_decode:
  assumes "c < 128"
  shows "drop_bit 1 (frame c) = c \<and> frame c AND 1 = computeParity c"
proof -
  have t: "\<not> bit c 7" using assms by (rule top_bit_clear)
  define m where "m = push_bit 1 c"
  have bm: "bit m k \<longleftrightarrow> 1 \<le> k \<and> k < 8 \<and> bit c (k - 1)" for k
    unfolding m_def bit_push_bit_iff possible_bit_word by auto
  have e: "even m" unfolding m_def by simp
  have d0: "drop_bit 1 m = c"
    by (rule bit_word_eqI) (auto simp: bit_drop_bit_eq bm dest: low_bits [OF t])
  have d1: "drop_bit 1 (1 + m) = c"
    by (rule bit_word_eqI)
       (auto simp: bit_drop_bit_eq even_bit_succ_iff [OF e] bm dest: low_bits [OF t])
  have a0: "m AND 1 = 0"
    by (rule bit_word_eqI) (auto simp: bit_and_iff bit_1_iff bm)
  have a1: "(1 + m) AND 1 = 1"
    by (rule bit_word_eqI) (auto simp: bit_and_iff bit_1_iff even_bit_succ_iff [OF e])
  have "frame c = computeParity c + m" by (simp add: frame_def m_def)
  then show ?thesis
    using computeParity_cases [of c] d0 d1 a0 a1 by auto
qed

lemma sendString_loop_frames:
  assumes "length (cstring (outputBuffer s)) < bufLen"
    and "i \<le> length (cstring (outputBuffer s))"
    and "length (cstring (outputBuffer s)) - i < length (filter (\<lambda>v. v \<noteq> 0) (char_sent s))"
  shows "\<exists>s'. sendString_loop i s = Inr s' \<and>
           frames_of (wire s') =
             frames_of (wire s) @ map frame (drop i (cstring (outputBuffer s)) @ [0]) \<and>
           outputBuffer s' = outputBuffer s"
  using assms
proof (induction "length (cstring (outputBuffer s)) - i" arbitrary: i s)
  case 0
  then have i: "i = length (cstring (outputBuffer s))" by simp
  have z: "outputBuffer s i = 0" using cstring_props(1) [OF "0.prems"(1)] i by simp
  from "0.prems"(3) have "filter (\<lambda>v. v \<noteq> 0) (char_sent s) \<noteq> []" by auto
  then obtain vs where "await_char_sent (char_sent s) = Inr vs"
    using await_char_sent_filter by blast
  then show ?case
    using z i "0.prems"(1)
    by (subst sendString_loop.simps) (simp add: sendChar_eq frames_of_append)
next
  case (Suc k)
  let ?p = "cstring (outputBuffer s)"
  from Suc.hyps(2) have i: "i < length ?p" by simp
  have nz: "outputBuffer s i = ?p ! i" "outputBuffer s i \<noteq> 0"
    using cstring_props(2) [OF Suc.prems(1) i] by auto
  from Suc.prems(3) have ne: "filter (\<lambda>v. v \<noteq> 0) (char_sent s) \<noteq> []" by auto
  then obtain vs where vs: "await_char_sent (char_sent s) = Inr vs"
    "filter (\<lambda>v. v \<noteq> 0) vs = tl (filter (\<lambda>v. v \<noteq> 0) (char_sent s))"
    using await_char_sent_filter by blast
  define s1 where "s1 = s\<lparr>sent := frame (outputBuffer s i), parity := computeParity (outputBuffer s i),
      char_sent := vs,
      wire := wire s @ [DataOut (frame (outputBuffer s i)), Load 1, TransEn 1, Load 0, TransEn 0]\<rparr>"
  have sc: "sendChar (outputBuffer s i) s = Inr s1"
    by (simp add: sendChar_eq vs s1_def)
  have ob: "outputBuffer s1 = outputBuffer s" by (simp add: s1_def)
  have "\<exists>s'. sendString_loop (Suc i) s1 = Inr s' \<and>
           frames_of (wire s') =
             frames_of (wire s1) @ map frame (drop (Suc i) (cstring (outputBuffer s1)) @ [0]) \<and>
           outputBuffer s' = outputBuffer s1"
  proof (rule Suc.hyps(1))
    show "k = length (cstring (outputBuffer s1)) - Suc i" using Suc.hyps(2) ob by simp
    show "length (cstring (outputBuffer s1)) < bufLen" using Suc.prems(1) ob by simp
    show "Suc i \<le> length (cstring (outputBuffer s1))" using i ob by simp
    show "length (cstring (outputBuffer s1)) - Suc i < length (filter (\<lambda>v. v \<noteq> 0) (char_sent s1))"
      using Suc.prems(3) vs(2) i ob by (simp add: s1_def)
  qed
  then obtain s' where s': "sendString_loop (Suc i) s1 = Inr s'"
    "frames_of (wire s') = frames_of (wire s1) @ map frame (drop (Suc i) ?p @ [0])"
    "outputBuffer s' = outputBuffer s"
    using ob by auto
  have il: "i < bufLen" using i Suc.prems(1) by simp
  have "sendString_loop i s = Inr s'"
    using il nz(2) sc s'(1) by (subst sendString_loop.simps) (simp add: andThen_def)
  moreover have "drop i ?p = ?p ! i # drop (Suc i) ?p"
    using i by (simp add: Cons_nth_drop_Suc)
  ultimately show ?case
    using s'(2,3) nz(1) by (simp add: s1_def frames_of_append)
qed


lemma readString_loop_done: "readString_loop i 0 ps s = Inr (0, s\<lparr>char_recv := ps\<rparr>)"
  by (cases ps) simp_all

lemma frame_0: "frame 0 = 0"
  by (simp add: frame_def computeParity_def)

lemma readString_loop_receives:
  assumes "received \<noteq> 0"
    and "delivered ps = map frame (cs @ [0])"
    and "\<forall>c\<in>set cs. c \<noteq> 0 \<and> c < 128"
    and "i + length cs < bufLen"
  shows "\<exists>r'. readString_loop i received ps r = Inr (0, r') \<and>
           (\<forall>j<length cs. inputBuffer r' (i + j) = cs ! j) \<and>
           inputBuffer r' (i + length cs) = 0 \<and>
           (\<forall>j<i. inputBuffer r' j = inputBuffer r j) \<and>
           console r' = console r"
  using assms
proof (induction ps arbitrary: i received r cs)
  case Nil
  then show ?case by simp
next
  case (Cons p ps)
  show ?case
  proof (cases p)
    case None
    with Cons.prems have "delivered ps = map frame (cs @ [0])" by simp
    from Cons.IH [OF Cons.prems(1) this Cons.prems(3,4), of r]
    show ?thesis using None Cons.prems(1) by simp
  next
    case (Some d)
    show ?thesis
    proof (cases cs)
      case Nil
      with Some Cons.prems have d: "d = 0" by (simp add: frame_0)
      show ?thesis
        using Nil Some d Cons.prems(1,4)
        by (simp add: Let_def computeParity_def readString_loop_done)
    next
      case (Cons c cs')
      with Some Cons.prems(2) have d: "d = frame c" and ps: "delivered ps = map frame (cs' @ [0])"
        by simp_all
      have c: "c \<noteq> 0" "c < 128" using Cons Cons.prems(3) by auto
      have dec: "drop_bit 1 d = c" "d AND 1 = computeParity c"
        using frame_decode [OF c(2)] d by auto
      define r1 where "r1 = r\<lparr>parity := d AND 1, inputBuffer := (inputBuffer r)(i := c),
          wire := wire r @ [CharRead 1, CharRead 0]\<rparr>"
      have il: "i < bufLen" using Cons.prems(4) by simp
      have step: "readString_loop i received (p # ps) r = readString_loop (Suc i) c ps r1"
        using Some Cons.prems(1) dec il by (simp add: Let_def r1_def)
      have "\<forall>c\<in>set cs'. c \<noteq> 0 \<and> c < 128" using Cons Cons.prems(3) by simp
      moreover have "Suc i + length cs' < bufLen" using Cons Cons.prems(4) by simp
      ultimately obtain r' where r':
        "readString_loop (Suc i) c ps r1 = Inr (0, r')"
        "\<forall>j<length cs'. inputBuffer r' (Suc i + j) = cs' ! j"
        "inputBuffer r' (Suc i + length cs') = 0"
        "\<forall>j<Suc i. inputBuffer r' j = inputBuffer r1 j"
        "console r' = console r1"
        using Cons.IH [OF c(1) ps, of "Suc i" r1] by blast
      have "\<forall>j<length cs. inputBuffer r' (i + j) = cs ! j"
      proof (intro allI impI)
        fix j assume "j < length cs"
        then show "inputBuffer r' (i + j) = cs ! j"
          using r'(2,4) Cons by (cases j) (auto simp: r1_def)
      qed
      moreover have "\<forall>j<i. inputBuffer r' j = inputBuffer r j"
        using r'(4) by (auto simp: r1_def)
      ultimately show ?thesis
        using step r'(1,3,5) Cons by (simp add: r1_def)
    qed
  qed
qed

subsection \<open>The counters of hits and the loop of turns\<close>

lemma andThen_Inr: "andThen m f = Inr y \<longleftrightarrow> (\<exists>x. m = Inr x \<and> f x = Inr y)"
  by (cases m) (simp_all add: andThen_def)

lemma counters_enterString: "enterString s = Inr s' \<Longrightarrow> counters s' = counters s"
  by (auto simp: enterString_def alt_getchar_def andThen_Inr counters_def
        split: list.splits if_splits)

lemma counters_fireLoop: "fireLoop s = Inr s' \<Longrightarrow> counters s' = counters s"
proof (induction s rule: fireLoop.induct)
  case (1 s)
  show ?case
  proof (cases "notValidMove s \<noteq> 0")
    case False
    with "1.prems" show ?thesis by (simp add: fireLoop.simps)
  next
    case True
    with "1.prems" obtain s1 v where e: "enterString s = Inr s1"
      and c: "checkMove_or_checkIndex (yourShotX (translateOutputBuffer s1))
                (yourShotY (translateOutputBuffer s1)) shotsBase (translateOutputBuffer s1) = Inr v"
      and f: "fireLoop ((translateOutputBuffer s1)\<lparr>notValidMove := v\<rparr>) = Inr s'"
      by (subst (asm) fireLoop.simps) (auto simp: Let_def split: sum.splits)
    from "1.IH" [OF True e refl c f]
    have "counters s' = counters ((translateOutputBuffer s1)\<lparr>notValidMove := v\<rparr>)" .
    also have "\<dots> = counters s1" by (simp add: counters_def translateOutputBuffer_def)
    also have "\<dots> = counters s" using e by (rule counters_enterString)
    finally show ?thesis .
  qed
qed

lemma counters_sendChar: "sendChar c s = Inr s' \<Longrightarrow> counters s' = counters s"
  by (auto simp: sendChar_eq counters_def split: sum.splits)

lemma counters_sendString_loop: "sendString_loop i s = Inr s' \<Longrightarrow> counters s' = counters s"
proof (induction i s rule: sendString_loop.induct)
  case (1 i s)
  from "1.prems" show ?case
    apply (subst (asm) sendString_loop.simps)
    apply (auto simp: andThen_Inr split: if_splits dest: counters_sendChar)
    using "1.IH" counters_sendChar by metis
qed

lemma counters_sendString: "sendString s = Inr s' \<Longrightarrow> counters s' = counters s"
  unfolding sendString_def by (rule counters_sendString_loop)

lemma counters_readString_loop:
  "readString_loop i received ps s = Inr (r, s') \<Longrightarrow> counters s' = counters s"
proof (induction ps arbitrary: i received s)
  case Nil
  then show ?case by (auto simp: counters_def split: if_splits)
next
  case (Cons p ps)
  from Cons.prems show ?case
    by (auto simp: counters_def Let_def split: if_splits option.splits dest!: Cons.IH)
qed

lemma counters_readString: "readString s = Inr (r, s') \<Longrightarrow> counters s' = counters s"
  unfolding readString_def by (rule counters_readString_loop)

lemma counters_updateEnemyBoard: "updateEnemyBoard b s = Inr s' \<Longrightarrow> counters s' = counters s"
  by (auto simp: updateEnemyBoard_def andThen_Inr Let_def writeSRAM_def counters_def)

lemma counters_updateYourBoard:
  "updateYourBoard s = Inr s' \<Longrightarrow>
   yourHits s' = yourHits s \<and> (enemyHits s' = enemyHits s \<or> enemyHits s' = enemyHits s + 1)"
  by (auto simp: updateYourBoard_def andThen_Inr Let_def writeSRAM_def split: if_splits)

lemma localTurn_counters:
  assumes "localTurn s = Inr s'"
  shows "enemyHits s' = enemyHits s \<and> (yourHits s' = yourHits s \<or> yourHits s' = yourHits s + 1)"
proof -
  from assms obtain s1 s2 r s3 s4 s7 where
    a: "fireLoop s = Inr s1" "sendString s1 = Inr s2" "readString s2 = Inr (r, s3)"
       "updateEnemyBoard shotsBase s3 = Inr s4"
    and b: "(if charToInt (inputBuffer (translateInputBuffer s4) 0) \<noteq> 0 then
            andThen (updateEnemyBoard hitsBase (translateInputBuffer s4)) (\<lambda>s6.
              Inr (s6\<lparr>yourHits := yourHits s6 + 1\<rparr>))
          else Inr (translateInputBuffer s4)) = Inr s7"
    and c: "s' = s7\<lparr>notValidMove := 1, yourTurn := 0\<rparr>"
    by (auto simp: localTurn_def andThen_Inr Let_def)
  have "counters s4 = counters s"
    using a by (auto dest!: counters_fireLoop counters_sendString counters_readString
        counters_updateEnemyBoard)
  moreover have "counters (translateInputBuffer s4) = counters s4"
    by (simp add: counters_def translateInputBuffer_def)
  moreover have "enemyHits s7 = enemyHits (translateInputBuffer s4) \<and>
      (yourHits s7 = yourHits (translateInputBuffer s4) \<or>
       yourHits s7 = yourHits (translateInputBuffer s4) + 1)"
    using b by (auto simp: andThen_Inr counters_def split: if_splits
        dest!: counters_updateEnemyBoard)
  ultimately show ?thesis using c by (auto simp: counters_def)
qed

lemma remoteTurn_counters:
  assumes "remoteTurn s = Inr s'"
  shows "yourHits s' = yourHits s \<and> (enemyHits s' = enemyHits s \<or> enemyHits s' = enemyHits s + 1)"
proof -
  from assms obtain r s1 s3 s4 where
    a: "readString s = Inr (r, s1)" "updateYourBoard (translateInputBuffer s1) = Inr s3"
       "sendString s3 = Inr s4" and c: "s' = s4\<lparr>yourTurn := 1\<rparr>"
    by (auto simp: remoteTurn_def andThen_Inr Let_def)
  have "counters s1 = counters s" using a(1) by (rule counters_readString)
  moreover have "counters (translateInputBuffer s1) = counters s1"
    by (simp add: counters_def translateInputBuffer_def)
  moreover note counters_updateYourBoard [OF a(2)] counters_sendString [OF a(3)]
  ultimately show ?thesis using c by (auto simp: counters_def)
qed

lemma counters_setIndexHigh: "setIndexHigh x y b s = Inr s' \<Longrightarrow> counters s' = counters s"
  by (auto simp: setIndexHigh_def andThen_Inr Let_def writeSRAM_def counters_def)

lemma counters_setCells: "setCells x y d js s = Inr s' \<Longrightarrow> counters s' = counters s"
proof (induction js arbitrary: s)
  case Nil
  then show ?case by simp
next
  case (Cons j js)
  from Cons.prems obtain s1 where "counters s1 = counters s" "setCells x y d js s1 = Inr s'"
    by (auto simp: andThen_Inr split: if_splits dest: counters_setIndexHigh)
  then show ?case using Cons.IH by metis
qed

lemma counters_checkCells:
  "checkCells x y d js check s = Inr (check', s') \<Longrightarrow> counters s' = counters s"
proof (induction js arbitrary: check)
  case Nil
  then show ?case by simp
next
  case (Cons j js)
  from Cons.prems obtain c1 where
    r: "(if c1 \<noteq> 0 then Inr (c1, s\<lparr>console := console s @ [OffMapOrTaken]\<rparr>)
         else checkCells x y d js c1 s) = Inr (check', s')"
    by (auto simp: andThen_Inr)
  show ?case
  proof (cases "c1 \<noteq> 0")
    case True
    with r show ?thesis by (auto simp: counters_def)
  next
    case False
    with r have "checkCells x y d js c1 s = Inr (check', s')" by simp
    then show ?thesis by (rule Cons.IH)
  qed
qed

lemma counters_placeAttempt:
  "placeAttempt i x y d check s = Inr (check', s') \<Longrightarrow> counters s' = counters s"
  by (auto simp: placeAttempt_def andThen_Inr split: if_splits
        dest!: counters_checkCells counters_setCells)

lemma counters_placeShip:
  "placeShip i check cs s = Inr (check', cs', s') \<Longrightarrow> counters s' = counters s"
proof (induction i check cs s rule: placeShip.induct)
  case (1 i check cs s)
  from "1.prems" obtain yc xc nl cs1 d cs2 c1 s1 where
    cs: "cs = yc # xc # nl # cs1" and ro: "readOrientation cs1 = Inr (d, cs2)"
    and pa: "placeAttempt i (ucast (charToInt xc)) (ucast (charToInt yc)) d check s = Inr (c1, s1)"
    and rest: "(if c1 \<noteq> 0 then placeShip i c1 cs2 s1 else Inr (c1, cs2, s1)) = Inr (check', cs', s')"
    by (subst (asm) placeShip.simps) (auto split: list.splits sum.splits prod.splits)
  have c: "counters s1 = counters s" using pa by (rule counters_placeAttempt)
  show ?case
  proof (cases "c1 \<noteq> 0")
    case True
    with rest have "placeShip i c1 cs2 s1 = Inr (check', cs', s')" by simp
    from "1.IH" [OF cs refl refl ro refl pa refl True this] c show ?thesis by simp
  next
    case False
    with rest c show ?thesis by simp
  qed
qed

lemma counters_setUpBoats_loop:
  "setUpBoats_loop is check s = Inr s' \<Longrightarrow> counters s' = counters s"
proof (induction "is" arbitrary: check s)
  case Nil
  then show ?case by simp
next
  case (Cons i "is")
  from Cons.prems obtain c1 cs s1 where p: "placeShip i check (stdin s) s = Inr (c1, cs, s1)"
    and r: "setUpBoats_loop is c1 (s1\<lparr>stdin := cs\<rparr>) = Inr s'"
    by (auto simp: andThen_Inr)
  from Cons.IH [OF r] counters_placeShip [OF p] show ?case by (simp add: counters_def)
qed

lemma counters_eraseSRAM: "counters (eraseSRAM s) = counters s"
proof -
  have "counters (fold (\<lambda>i. writeSRAM (of_nat i) 0) ns s) = counters s" for ns
    by (induction ns arbitrary: s) (simp_all add: writeSRAM_def counters_def)
  then show ?thesis by (simp add: eraseSRAM_def)
qed

lemma counters_alt_getchar: "alt_getchar s = Inr (c, s') \<Longrightarrow> counters s' = counters s"
  by (auto simp: alt_getchar_def counters_def split: list.splits)

lemma counters_main_setup:
  assumes "main_setup s = Inr s'"
  shows "counters s' = counters s"
proof -
  let ?s2 = "eraseSRAM (s\<lparr>wire := wire s @ [CharRead 1, CharRead 0]\<rparr>)"
  from assms obtain s3 c s4 nl where a: "setUpBoats ?s2 = Inr s3"
    and b: "alt_getchar (s3\<lparr>notValidMove := 1\<rparr>) = Inr (c, s4)"
    and d: "alt_getchar (s4\<lparr>yourTurn := 2 - charToInt c\<rparr>) = Inr (nl, s')"
    by (auto simp: main_setup_def Let_def andThen_Inr)
  have "counters s' = counters (s4\<lparr>yourTurn := 2 - charToInt c\<rparr>)"
    using d by (rule counters_alt_getchar)
  also have "\<dots> = counters s4" by (simp add: counters_def)
  also have "\<dots> = counters (s3\<lparr>notValidMove := 1\<rparr>)" using b by (rule counters_alt_getchar)
  also have "\<dots> = counters s3" by (simp add: counters_def)
  also have "\<dots> = counters ?s2"
    using a unfolding setUpBoats_def by (rule counters_setUpBoats_loop)
  also have "\<dots> = counters s" by (simp add: counters_eraseSRAM) (simp add: counters_def)
  finally show ?thesis .
qed

lemma totalHits_7: "totalHits = 7"
  by (simp add: totalHits_def SMALL_SHIP_LENGTH_def LARGE_SHIP_LENGTH_def upt_rec)

lemma turn_counters:
  "turn s = Inr s' \<Longrightarrow>
   (yourHits s' = yourHits s \<and> (enemyHits s' = enemyHits s \<or> enemyHits s' = enemyHits s + 1)) \<or>
   (enemyHits s' = enemyHits s \<and> (yourHits s' = yourHits s \<or> yourHits s' = yourHits s + 1))"
  by (auto simp: turn_def split: if_splits dest: localTurn_counters remoteTurn_counters)

lemma succ_le_7: "(a::u32) \<le> 7 \<Longrightarrow> a \<noteq> 7 \<Longrightarrow> a + 1 \<le> 7"
  by (rule inc_le) simp

lemma turns_bounded:
  "turns n s0 = Inr s \<Longrightarrow> yourHits s0 \<le> 7 \<Longrightarrow> enemyHits s0 \<le> 7 \<Longrightarrow>
   yourHits s \<le> 7 \<and> enemyHits s \<le> 7"
proof (induction n arbitrary: s)
  case 0
  then show ?case by simp
next
  case (Suc n)
  from Suc.prems(1) obtain s1 where t: "turns n s0 = Inr s1"
    and st: "(if playing s1 then turn s1 else Inr s1) = Inr s"
    by (auto simp: andThen_Inr)
  from Suc.IH [OF t Suc.prems(2,3)] have b: "yourHits s1 \<le> 7" "enemyHits s1 \<le> 7" by auto
  show ?case
  proof (cases "playing s1")
    case False
    with st b show ?thesis by simp
  next
    case True
    then have ne: "yourHits s1 \<noteq> 7" "enemyHits s1 \<noteq> 7" by (auto simp: playing_def totalHits_7)
    from True st have "turn s1 = Inr s" by simp
    from turn_counters [OF this] b succ_le_7 [OF b(1) ne(1)] succ_le_7 [OF b(2) ne(2)]
    show ?thesis by auto
  qed
qed

lemma turns_front:
  "turns (Suc n) s = andThen (if playing s then turn s else Inr s) (turns n)"
proof (induction n)
  case 0
  show ?case by (cases "if playing s then turn s else Inr s") (simp_all add: andThen_def)
next
  case (Suc n)
  have "turns (Suc (Suc n)) s =
      andThen (turns (Suc n) s) (\<lambda>s'. if playing s' then turn s' else Inr s')"
    by simp
  also have "\<dots> = andThen (if playing s then turn s else Inr s) (turns (Suc n))"
    unfolding Suc by (cases "if playing s then turn s else Inr s") (simp_all add: andThen_def)
  finally show ?case .
qed

lemma mainLoop_stops: "\<not> playing s \<Longrightarrow> mainLoop s = Some (Inr s)"
  by (subst mainLoop.simps) simp

lemma mainLoop_turns:
  "turns n s0 = Inr s \<Longrightarrow> \<not> playing s \<Longrightarrow> mainLoop s0 = Some (Inr s)"
proof (induction n arbitrary: s0)
  case 0
  then show ?case by (simp add: mainLoop_stops)
next
  case (Suc n)
  show ?case
  proof (cases "playing s0")
    case False
    with Suc.prems(1) have "turns n s0 = Inr s" by (simp add: turns_front andThen_def del: turns.simps)
    from Suc.IH [OF this Suc.prems(2)] show ?thesis .
  next
    case True
    with Suc.prems(1) obtain s1 where t: "turn s0 = Inr s1" and r: "turns n s1 = Inr s"
      by (auto simp: turns_front andThen_Inr simp del: turns.simps)
    from Suc.IH [OF r Suc.prems(2)] have "mainLoop s1 = Some (Inr s)" .
    then show ?thesis using True t by (subst mainLoop.simps) simp
  qed
qed

subsection \<open>A parity error\<close>

lemma readString_loop_parity_error:
  assumes "received \<noteq> 0"
    and "\<forall>f\<in>set (delivered pre). computeParity (drop_bit 1 f) = f AND 1 \<and> drop_bit 1 f \<noteq> 0"
    and "i + length (delivered pre) \<le> bufLen"
    and "computeParity (drop_bit 1 d) \<noteq> d AND 1"
  shows "\<exists>s'. readString_loop i received (pre @ Some d # rest) s = Inr (1, s') \<and>
           s' = s\<lparr>parity := d AND 1,
                  inputBuffer := (\<lambda>j. if i \<le> j \<and> j < i + length (delivered pre)
                                       then drop_bit 1 (delivered pre ! (j - i))
                                       else inputBuffer s j),
                  wire := wire s @ concat (replicate (Suc (length (delivered pre)))
                                     [CharRead 1, CharRead 0]),
                  console := console s @ [ParityError d],
                  char_recv := rest\<rparr>"
  using assms(1-3)
proof (induction pre arbitrary: i received s)
  case Nil
  have "(\<lambda>j. if i \<le> j \<and> j < i then x j else inputBuffer s j) = inputBuffer s" for x
    by (auto simp: fun_eq_iff)
  with Nil show ?case using assms(4) by (simp add: Let_def)
next
  case (Cons p pre)
  show ?case
  proof (cases p)
    case None
    from Cons.prems have "\<forall>f\<in>set (delivered pre).
        computeParity (drop_bit 1 f) = f AND 1 \<and> drop_bit 1 f \<noteq> 0"
      "i + length (delivered pre) \<le> bufLen"
      unfolding None by simp_all
    from Cons.IH [OF Cons.prems(1) this, of s] Cons.prems(1)
    show ?thesis unfolding None by (simp cong: if_cong)
  next
    case (Some f)
    with Cons.prems have f: "computeParity (drop_bit 1 f) = f AND 1" "drop_bit 1 f \<noteq> 0"
      and g: "\<forall>f\<in>set (delivered pre). computeParity (drop_bit 1 f) = f AND 1 \<and> drop_bit 1 f \<noteq> 0"
      and il: "i < bufLen" "Suc i + length (delivered pre) \<le> bufLen"
      by auto
    define s1 where "s1 = s\<lparr>parity := f AND 1, inputBuffer := (inputBuffer s)(i := drop_bit 1 f),
        wire := wire s @ [CharRead 1, CharRead 0]\<rparr>"
    have step: "readString_loop i received ((p # pre) @ Some d # rest) s =
        readString_loop (Suc i) (drop_bit 1 f) (pre @ Some d # rest) s1"
      using Some Cons.prems(1) f il by (simp add: Let_def s1_def)
    from Cons.IH [OF f(2) g il(2), of s1]
    have "readString_loop (Suc i) (drop_bit 1 f) (pre @ Some d # rest) s1 =
        Inr (1, s1\<lparr>parity := d AND 1,
                  inputBuffer := (\<lambda>j. if Suc i \<le> j \<and> j < Suc i + length (delivered pre)
                                       then drop_bit 1 (delivered pre ! (j - Suc i))
                                       else inputBuffer s1 j),
                  wire := wire s1 @ concat (replicate (Suc (length (delivered pre)))
                                     [CharRead 1, CharRead 0]),
                  console := console s1 @ [ParityError d],
                  char_recv := rest\<rparr>)"
      by simp
    moreover have "(\<lambda>j. if Suc i \<le> j \<and> j < Suc i + length (delivered pre)
                                       then drop_bit 1 (delivered pre ! (j - Suc i))
                                       else inputBuffer s1 j) =
        (\<lambda>j. if i \<le> j \<and> j < i + length (delivered (p # pre))
                                       then drop_bit 1 (delivered (p # pre) ! (j - i))
                                       else inputBuffer s j)"
      using Some by (auto simp: fun_eq_iff s1_def Suc_diff_le nth_Cons')
    ultimately show ?thesis using step Some by (simp add: s1_def)
  qed
qed

subsection \<open>Running the code on a given input\<close>

lemmas run_defs = initial_def main_setup_def eraseSRAM_def writeSRAM_def readSRAM_def setUpBoats_def
  SMALL_SHIP_LENGTH_def LARGE_SHIP_LENGTH_def placeShip.simps placeAttempt_def andThen_def
  checkMove_or_checkIndex_def checkMove_def checkIndex_def c_shr_def c_shl_def createByte_def
  setIndexHigh_def BOARD_WIDTH_def BOARD_HEIGHT_def boardBase_def shotsBase_def hitsBase_def charToInt_def alt_getchar_def
  word_sle_eq Let_def upt_rec fireLoop.simps enterString_def bufLen_def translateOutputBuffer_def

lemmas turn_defs = turn_def remoteTurn_def localTurn_def playing_def totalHits_def readString_def
  computeParity_def translateInputBuffer_def updateYourBoard_def sendString_def
  sendString_loop.simps sendChar_def updateEnemyBoard_def frame_def

lemma turns_numeral:
  "turns (numeral k) s =
     andThen (turns (pred_numeral k) s) (\<lambda>s'. if playing s' then turn s' else Inr s')"
  by (simp add: numeral_eq_Suc)

section \<open>The claims\<close>

text \<open>
  C5: for every byte \<open>b\<close> and every bit position \<open>i\<close> in 0..7, \<open>computeParity\<close> of
  \<open>b\<close> with bit \<open>i\<close> flipped differs from \<open>computeParity b\<close>: the parity bit detects
  every corruption of a single bit.
\<close>

theorem computeParity_detects_single_bit_flip:
  "i < 8 \<Longrightarrow> computeParity (b XOR push_bit i 1) \<noteq> computeParity b"
proof
  assume i: "i < 8" and eq: "computeParity (b XOR push_bit i 1) = computeParity b"
  have "computeParity (b XOR push_bit i 1) = computeParity b XOR 1"
    by (simp only: computeParity_xor computeParity_mask [OF i])
  with eq have "computeParity b XOR 1 = computeParity b" by simp
  then have "computeParity b XOR (computeParity b XOR 1) = computeParity b XOR computeParity b"
    by simp
  then have "(1::u8) = 0" by (simp only: xor.assoc [symmetric] xor_self_eq xor.left_neutral)
  then show False by simp
qed

theorem computeParity_detects_single_bit_flip_witness:
  "(5::nat) < 8 \<and> computeParity (67 XOR push_bit 5 1) \<noteq> computeParity 67"
  using computeParity_detects_single_bit_flip [of 5 67] by simp

text \<open>
  C10: for a column \<open>x\<close> and a row \<open>y\<close> in 1..8, \<open>setIndexHigh x y base\<close> and
  \<open>updateEnemyBoard board\<close> (with \<open>yourShotX = x\<close>, \<open>yourShotY = y\<close>) change nothing
  but the store byte at the base plus \<open>y - 1\<close>, which gets the old byte OR the mask of the
  column; the mask has the one bit \<open>8 - x\<close>, so every other bit of the byte stays.
  \<open>updateYourBoard\<close> (with \<open>theirShotX = x\<close>, \<open>theirShotY = y\<close>) changes no byte of
  the store on a miss, and on a hit only the byte of row \<open>y\<close> of the ships board, in which
  it clears the bit of column \<open>x\<close>; besides the store it counts the hit and writes its
  reply into \<open>outputBuffer\<close>.
\<close>

theorem store_updates_frame:
  assumes x: "1 \<le> x" "x \<le> 8" and y: "1 \<le> y" "y \<le> 8"
  shows
    "setIndexHigh x y base s =
       Inr (s\<lparr>sram := (sram s)(ucast (base + y - 1) :=
              sram s (ucast (base + y - 1)) OR push_bit (8 - unat x) 1)\<rparr>) \<and>
     updateEnemyBoard board (s\<lparr>yourShotX := x, yourShotY := y\<rparr>) =
       Inr (s\<lparr>yourShotX := x, yourShotY := y,
              sram := (sram s)(ucast (board + y - 1) :=
                sram s (ucast (board + y - 1)) OR push_bit (8 - unat x) 1)\<rparr>) \<and>
     updateYourBoard (s\<lparr>theirShotX := x, theirShotY := y\<rparr>) =
       Inr (if bit (sram s (ucast (boardBase + y - 1))) (8 - unat x)
            then s\<lparr>theirShotX := x, theirShotY := y,
                   sram := (sram s)(ucast (boardBase + y - 1) :=
                     sram s (ucast (boardBase + y - 1)) AND NOT (push_bit (8 - unat x) 1)),
                   enemyHits := enemyHits s + 1,
                   outputBuffer := (outputBuffer s)(0 := 49, 1 := 0)\<rparr>
            else s\<lparr>theirShotX := x, theirShotY := y,
                   outputBuffer := (outputBuffer s)(0 := 48, 1 := 0)\<rparr>) \<and>
     bit ((b::u8) OR push_bit (8 - unat x) 1) j = (bit b j \<or> j = 8 - unat x) \<and>
     bit (b AND NOT (push_bit (8 - unat x) 1)) j = (bit b j \<and> j \<noteq> 8 - unat x)"
proof (intro conjI)
  have k: "8 - unat x < 8" using col_shift [OF x] by simp
  show "setIndexHigh x y base s =
           Inr (s\<lparr>sram := (sram s)(ucast (base + y - 1) :=
                  sram s (ucast (base + y - 1)) OR push_bit (8 - unat x) 1)\<rparr>)"
    by (simp add: setIndexHigh_def createByte_col [OF x] andThen_def Let_def readSRAM_def
          writeSRAM_def or.commute)
  show "updateEnemyBoard board (s\<lparr>yourShotX := x, yourShotY := y\<rparr>) =
           Inr (s\<lparr>yourShotX := x, yourShotY := y,
                  sram := (sram s)(ucast (board + y - 1) :=
                    sram s (ucast (board + y - 1)) OR push_bit (8 - unat x) 1)\<rparr>)"
  proof -
    have a: "y - 1 + board = board + y - 1" by simp
    show ?thesis
      unfolding updateEnemyBoard_def
      by (simp add: a createByte_col [OF x] andThen_def Let_def readSRAM_def writeSRAM_def
            del: add_diff_eq diff_add_eq)
  qed
  show "bit (b OR push_bit (8 - unat x) 1) j = (bit b j \<or> j = 8 - unat x)"
    using k by (rule or_bit)
  show "bit (b AND NOT (push_bit (8 - unat x) 1)) j = (bit b j \<and> j \<noteq> 8 - unat x)"
    using k by (rule clear_bit)
  have sh: "BOARD_WIDTH - x < 32" "unat (BOARD_WIDTH - x) = 8 - unat x"
    using col_shift [OF x] by (auto elim: less_trans)
  show "updateYourBoard (s\<lparr>theirShotX := x, theirShotY := y\<rparr>) =
           Inr (if bit (sram s (ucast (boardBase + y - 1))) (8 - unat x)
                then s\<lparr>theirShotX := x, theirShotY := y,
                       sram := (sram s)(ucast (boardBase + y - 1) :=
                         sram s (ucast (boardBase + y - 1)) AND NOT (push_bit (8 - unat x) 1)),
                       enemyHits := enemyHits s + 1,
                       outputBuffer := (outputBuffer s)(0 := 49, 1 := 0)\<rparr>
                else s\<lparr>theirShotX := x, theirShotY := y,
                       outputBuffer := (outputBuffer s)(0 := 48, 1 := 0)\<rparr>)"
    using sh unfolding updateYourBoard_def
    by (simp add: createByte_col [OF x] andThen_def Let_def readSRAM_def writeSRAM_def
          c_shr_def clear_mask shr_and_1)
qed

theorem store_updates_frame_witness:
  "(1::u32) \<le> 3 \<and> (3::u32) \<le> 8 \<and> (1::u32) \<le> 6 \<and> (6::u32) \<le> 8 \<and>
   setIndexHigh 3 6 boardBase (initial (\<lambda>a. 0) [] [] []) =
     Inr ((initial (\<lambda>a. 0) [] [] [])\<lparr>sram := (\<lambda>a. 0)(21 := 32)\<rparr>) \<and>
   updateEnemyBoard shotsBase ((initial (\<lambda>a. 0) [] [] [])\<lparr>yourShotX := 3, yourShotY := 6\<rparr>) =
     Inr ((initial (\<lambda>a. 0) [] [] [])\<lparr>yourShotX := 3, yourShotY := 6,
            sram := (\<lambda>a. 0)(5 := 32)\<rparr>) \<and>
   updateYourBoard ((initial (\<lambda>a. 255) [] [] [])\<lparr>theirShotX := 3, theirShotY := 6\<rparr>) =
     Inr ((initial (\<lambda>a. 255) [] [] [])\<lparr>theirShotX := 3, theirShotY := 6,
            sram := (\<lambda>a. 255)(21 := 223), enemyHits := 1,
            outputBuffer := (\<lambda>i. 0)(0 := 49, 1 := 0)\<rparr>)"
  using store_updates_frame [of 3 6 boardBase "initial (\<lambda>a. 0) [] [] []" shotsBase 0 0]
    store_updates_frame [of 3 6 boardBase "initial (\<lambda>a. 255) [] [] []" shotsBase 0 0]
  by (simp add: boardBase_def shotsBase_def initial_def)

text \<open>
  C1, as the code has it: for every null-terminated string in \<open>outputBuffer\<close> whose
  payload fits the buffer and whose bytes are below 128, \<open>sendString\<close>, given an
  acknowledgement for every byte, returns and puts on the data lines the frame of each
  byte and of the terminator, in order (eight bits each: the low seven bits of the byte
  with the parity bit below them); and whenever polls deliver exactly these frames in
  this order, \<open>readString\<close> returns 0, leaves the identical string in \<open>inputBuffer\<close>,
  terminated, and prints no parity error.
\<close>

theorem sendString_readString_roundtrip:
  assumes fits: "length (cstring (outputBuffer s)) < bufLen"
    and ascii: "\<forall>c\<in>set (cstring (outputBuffer s)). c < 128"
    and acks: "length (cstring (outputBuffer s)) < length (filter (\<lambda>v. v \<noteq> 0) (char_sent s))"
  shows "\<exists>s'. sendString s = Inr s' \<and>
           frames_of (wire s') =
             frames_of (wire s) @ map frame (cstring (outputBuffer s) @ [0]) \<and>
           (\<forall>r ps. delivered ps = map frame (cstring (outputBuffer s) @ [0]) \<longrightarrow>
              (\<exists>r'. readString (r\<lparr>char_recv := ps\<rparr>) = Inr (0, r') \<and>
                 cstring (inputBuffer r') = cstring (outputBuffer s) \<and>
                 inputBuffer r' (length (cstring (outputBuffer s))) = 0 \<and>
                 console r' = console r))"
proof -
  let ?p = "cstring (outputBuffer s)"
  obtain s' where s': "sendString s = Inr s'"
    "frames_of (wire s') = frames_of (wire s) @ map frame (?p @ [0])"
    using sendString_loop_frames [OF fits, of 0] acks by (auto simp: sendString_def)
  have nz: "\<forall>c\<in>set ?p. c \<noteq> 0 \<and> c < 128"
    using ascii by (auto simp: cstring_def dest: set_takeWhileD)
  have "\<exists>r'. readString (r\<lparr>char_recv := ps\<rparr>) = Inr (0, r') \<and>
                 cstring (inputBuffer r') = ?p \<and> inputBuffer r' (length ?p) = 0 \<and>
                 console r' = console r"
    if d: "delivered ps = map frame (?p @ [0])" for r ps
  proof -
    obtain r' where r': "readString_loop 0 1 ps (r\<lparr>char_recv := ps\<rparr>) = Inr (0, r')"
      "\<forall>j<length ?p. inputBuffer r' (0 + j) = ?p ! j"
      "inputBuffer r' (0 + length ?p) = 0"
      "console r' = console (r\<lparr>char_recv := ps\<rparr>)"
      using readString_loop_receives [OF _ d nz, of 1 0 "r\<lparr>char_recv := ps\<rparr>"] fits
      by auto
    have "cstring (inputBuffer r') = ?p"
      using r'(2,3) nz fits by (intro cstring_eqI) auto
    then show ?thesis using r' by (simp add: readString_def)
  qed
  then show ?thesis using s' by blast
qed

theorem sendString_readString_roundtrip_witness:
  "cstring (outputBuffer ((initial (\<lambda>a. 0) [] [1, 0, 1, 1] [])\<lparr>outputBuffer := (\<lambda>i. 0)(0 := 65, 1 := 49)\<rparr>)) = [65, 49] \<and>
   (\<exists>s'. sendString ((initial (\<lambda>a. 0) [] [1, 0, 1, 1] [])\<lparr>outputBuffer := (\<lambda>i. 0)(0 := 65, 1 := 49)\<rparr>) = Inr s' \<and>
      frames_of (wire s') = [130, 99, 0]) \<and>
   (\<exists>r'. readString ((initial (\<lambda>a. 0) [] [] [None, Some 130, Some 99, None, Some 0])) = Inr (0, r') \<and>
      cstring (inputBuffer r') = [65, 49] \<and> console r' = [])"
proof -
  let ?s = "(initial (\<lambda>a. 0) [] [1, 0, 1, 1] [])\<lparr>outputBuffer := (\<lambda>i. 0)(0 := 65, 1 := 49)\<rparr>"
  have c: "cstring (outputBuffer ?s) = [65, 49]"
    by (simp add: cstring_def bufLen_def upt_rec)
  have f: "frame 65 = 130" "frame 49 = 99" "frame 0 = 0"
    by (simp_all add: frame_def computeParity_def)
  have "length (cstring (outputBuffer ?s)) < bufLen" 
    "\<forall>c\<in>set (cstring (outputBuffer ?s)). c < 128"
    "length (cstring (outputBuffer ?s)) < length (filter (\<lambda>v. v \<noteq> 0) (char_sent ?s))"
    unfolding c by (simp_all add: bufLen_def initial_def)
  from sendString_readString_roundtrip [OF this]
  obtain s' where s': "sendString ?s = Inr s'"
    "frames_of (wire s') = frames_of (wire ?s) @ map frame (cstring (outputBuffer ?s) @ [0])"
    and rd: "\<And>r ps. delivered ps = map frame (cstring (outputBuffer ?s) @ [0]) \<Longrightarrow>
              (\<exists>r'. readString (r\<lparr>char_recv := ps\<rparr>) = Inr (0, r') \<and>
                 cstring (inputBuffer r') = cstring (outputBuffer ?s) \<and>
                 inputBuffer r' (length (cstring (outputBuffer ?s))) = 0 \<and>
                 console r' = console r)"
    by blast
  have w: "frames_of (wire s') = [130, 99, 0]"
    using s'(2) unfolding c by (simp add: f initial_def)
  have "delivered [None, Some 130, Some 99, None, Some 0] = map frame (cstring (outputBuffer ?s) @ [0])"
    unfolding c by (simp add: f)
  from rd [OF this, of "initial (\<lambda>a. 0) [] [] []"]
  obtain r' where "readString ((initial (\<lambda>a. 0) [] [] [])\<lparr>char_recv := [None, Some 130, Some 99, None, Some 0]\<rparr>) = Inr (0, r')"
    "cstring (inputBuffer r') = [65, 49]" "console r' = []"
    unfolding c by (auto simp: initial_def)
  moreover have "(initial (\<lambda>a. 0) [] [] [])\<lparr>char_recv := [None, Some 130, Some 99, None, Some 0]\<rparr> = initial (\<lambda>a. 0) [] [] [None, Some 130, Some 99, None, Some 0]"
    by (simp add: initial_def)
  ultimately show ?thesis using c s'(1) w by auto
qed

text \<open>
  C1 as stated fails for a byte with the top bit set: the string of the one byte 128 goes
  out as the frames 1 and 0, and \<open>readString\<close> answers them with a parity error.
\<close>

theorem high_bit_byte_counterexample:
  "map_sum id (\<lambda>s. frames_of (wire s))
     (sendString ((initial (\<lambda>a. 0) [] [1, 1] [])\<lparr>outputBuffer := (\<lambda>i. 0)(0 := 128)\<rparr>)) = Inr [1, 0] \<and>
   map_sum id (\<lambda>(r, s). (r, console s, cstring (inputBuffer s)))
     (readString (initial (\<lambda>a. 0) [] [] [Some 1, Some 0])) = Inr (1, [ParityError 1], [])"
  by (simp add: initial_def sendString_def sendString_loop.simps sendChar_def andThen_def bufLen_def
      computeParity_def Let_def readString_def cstring_def upt_rec)




text \<open>
  C2: \<open>checkIndex\<close> tests \<open>x >= 0\<close> and \<open>y >= 0\<close>, so it returns 0 (in bounds) for a
  column or a row 0, which is outside 1..8. Typing \<open>10\<close> (row 1, column 0) at the prompt
  of \<open>main\<close> is accepted as a valid move and not asked again.
\<close>

theorem checkIndex_accepts_zero:
  "checkIndex 0 1 = 0 \<and> checkIndex 1 0 = 0 \<and>
   map_sum id (\<lambda>s. (notValidMove s, yourShotX s, yourShotY s, stdin s))
     (fireLoop ((initial (\<lambda>a. 0) (map of_char ''10'' @ [10]) [] [])\<lparr>notValidMove := 1\<rparr>)) =
   Inr (0, 0, 1, [])"
  by (simp add: run_defs)

text \<open>
  C3: in \<open>checkMove(x, y, base) || checkIndex(x, y)\<close> the call of \<open>checkMove\<close> comes
  first, with values nothing has validated. Typing \<open>I9\<close> at the prompt of \<open>main\<close> makes
  it shift by \<open>8 - 9\<close>, for which C defines no result; trying a vertical ship of
  length 4 from row 8 makes it read the store byte 26, which belongs to no board, and a
  bit set there rejects the placement as taken.
\<close>

theorem checkMove_runs_before_checkIndex:
  "checkMove_or_checkIndex 9 9 shotsBase s = Inl UndefinedShift \<and>
   fireLoop ((initial mem (map of_char ''I9'' @ [10]) [] [])\<lparr>notValidMove := 1\<rparr>) = Inl UndefinedShift \<and>
   checkMove 1 11 boardBase s = Inr (of_bool (bit (sram s 26) 7)) \<and>
   map_sum id fst (checkCells 1 8 (of_char CHR ''v'') (rev [0..<4]) 0 ((initial (\<lambda>a. 0) [] [] [])\<lparr>sram := (\<lambda>a. 0)(26 := 128)\<rparr>)) = Inr 1"
  apply (intro conjI)
     apply (simp add: run_defs)
    apply (simp add: run_defs)
   apply (simp add: checkMove_eq BOARD_WIDTH_def boardBase_def)
  apply (simp add: run_defs)
  done

text \<open>
  C6: a ship of length 4 placed horizontally from column 0 of row A has its first cell
  outside the grid, yet \<open>setUpBoats\<close> accepts it (no message, no further prompt for
  this ship) and marks only the three cells in columns 1 to 3.
\<close>

theorem placement_accepts_column_zero:
  "map_sum id (\<lambda>s. (map (sram s) [16, 17, 18, 19, 20, 21, 22, 23], console s, stdin s))
     (setUpBoats ((initial (\<lambda>a. 0)
        (map of_char ''A0'' @ [10] @ map of_char ''h'' @ [10] @
         map of_char ''E1'' @ [10] @ map of_char ''h'' @ [10]) [] []))) =
   Inr ([224, 0, 0, 0, 224, 0, 0, 0], [], [])"
  by (simp add: run_defs)

text \<open>
  C7: a ship of length 4 placed vertically from row 0 is accepted, and its cell in row 0
  is written to the store byte 15, row 8 of the board of confirmed hits. At the head of
  the loop of \<open>main\<close>, before any shot, that board holds a bit (byte 15 is 128) that
  the board of shots (byte 7 is 0) does not. A received shot at row 0, column 1 in turn
  makes \<open>updateYourBoard\<close> read byte 15 and clear the bit of a confirmed hit there.
\<close>

theorem hit_bit_without_shot_bit:
  "map_sum id (\<lambda>s. (sram s 15, sram s 7, map (sram s) [16, 17, 18, 19, 20, 21, 22, 23], console s, stdin s))
     (main_setup (initial mem
        (map of_char ''01'' @ [10] @ map of_char ''v'' @ [10] @
         map of_char ''E1'' @ [10] @ map of_char ''h'' @ [10] @ map of_char ''1'' @ [10]) [] [])) =
   Inr (128, 0, [128, 128, 128, 0, 224, 0, 0, 0], [], []) \<and>
   map_sum id (\<lambda>s. (sram s 15, sram s 7, enemyHits s))
     (updateYourBoard ((initial (\<lambda>a. 0) [] [] [])
        \<lparr>sram := (\<lambda>a. 0)(7 := 128, 15 := 128), theirShotX := 1, theirShotY := 0\<rparr>)) =
   Inr (0, 128, 1)"
  by (simp add: run_defs updateYourBoard_def)

text \<open>
  C8: at the head of the loop of \<open>main\<close>, after any number of turns, \<open>yourHits\<close> and
  \<open>enemyHits\<close> are at most \<open>totalHits\<close>, which is 3 + 4 = 7. While neither counter
  equals the total the next turn is taken; as soon as one does, no further turn is taken:
  the loop returns the state as it is and \<open>main\<close> ends with the report, which is a win
  exactly when \<open>yourHits\<close> equals the total and a loss otherwise.
\<close>

theorem hit_counters_and_game_over:
  assumes start: "main_setup (initial mem keys acks polls) = Inr s0"
    and reach: "turns n s0 = Inr s"
  shows "totalHits = 7 \<and> yourHits s \<le> totalHits \<and> enemyHits s \<le> totalHits \<and>
     console (report s) = console s @ [if yourHits s = totalHits then YouWin else YouLose] \<and>
     (yourHits s \<noteq> totalHits \<and> enemyHits s \<noteq> totalHits \<longrightarrow> turns (Suc n) s0 = turn s) \<and>
     (yourHits s = totalHits \<or> enemyHits s = totalHits \<longrightarrow>
        turns (Suc n) s0 = Inr s \<and> mainLoop s = Some (Inr s) \<and>
        main (initial mem keys acks polls) = Some (Inr (report s)))"
proof -
  have "counters s0 = counters (initial mem keys acks polls)"
    using start by (rule counters_main_setup)
  then have z: "yourHits s0 \<le> 7" "enemyHits s0 \<le> 7"
    by (simp_all add: counters_def initial_def)
  from turns_bounded [OF reach z] have b: "yourHits s \<le> totalHits" "enemyHits s \<le> totalHits"
    by (simp_all add: totalHits_7)
  have r: "console (report s) = console s @ [if yourHits s = totalHits then YouWin else YouLose]"
    by (simp add: report_def)
  have go: "turns (Suc n) s0 = turn s" if "yourHits s \<noteq> totalHits \<and> enemyHits s \<noteq> totalHits"
    using that reach by (simp add: playing_def andThen_def)
  have over: "turns (Suc n) s0 = Inr s \<and> mainLoop s = Some (Inr s) \<and>
        main (initial mem keys acks polls) = Some (Inr (report s))"
    if "yourHits s = totalHits \<or> enemyHits s = totalHits"
  proof -
    from that have np: "\<not> playing s" by (auto simp: playing_def)
    from mainLoop_turns [OF reach np] have "mainLoop s0 = Some (Inr s)" .
    then have "main (initial mem keys acks polls) = Some (Inr (report s))"
      using start by (simp add: main_def)
    then show ?thesis using np reach by (simp add: mainLoop_stops andThen_def)
  qed
  from b r go over show ?thesis by (simp add: totalHits_7)
qed

text \<open>
  A whole match: player 2 places the ships at A1 and B1, the opponent fires at their seven
  cells, and the six shots fired in between bring three hits.
\<close>

theorem hit_counters_and_game_over_witness:
  "\<exists>s0 s.
     main_setup (initial (\<lambda>a. 0)
       (concat (map (\<lambda>m. map of_char m @ [10])
          [''A1'', ''h'', ''B1'', ''h'', ''2'', ''H1'', ''H2'', ''H3'', ''H4'', ''H5'', ''H6'']))
       (map (\<lambda>c. 1) ''12345678901234567890123456789012'')
       (concat (map (\<lambda>m. map (\<lambda>c. Some (frame (of_char c))) m @ [Some 0])
          [''A1'', ''1'', ''A2'', ''1'', ''A3'', ''0'', ''A4'', ''0'', ''B1'', ''1'', ''B2'', ''0'',
           ''B3'']))) = Inr s0 \<and>
     turns 13 s0 = Inr s \<and> enemyHits s = totalHits \<and> yourHits s = 3 \<and>
     mainLoop s = Some (Inr s) \<and>
     main (initial (\<lambda>a. 0)
       (concat (map (\<lambda>m. map of_char m @ [10])
          [''A1'', ''h'', ''B1'', ''h'', ''2'', ''H1'', ''H2'', ''H3'', ''H4'', ''H5'', ''H6'']))
       (map (\<lambda>c. 1) ''12345678901234567890123456789012'')
       (concat (map (\<lambda>m. map (\<lambda>c. Some (frame (of_char c))) m @ [Some 0])
          [''A1'', ''1'', ''A2'', ''1'', ''A3'', ''0'', ''A4'', ''0'', ''B1'', ''1'', ''B2'', ''0'',
           ''B3'']))) = Some (Inr (report s)) \<and>
     console (report s) = [YouLose]"
proof -
  let ?I = "(initial (\<lambda>a. 0)
       (concat (map (\<lambda>m. map of_char m @ [10])
          [''A1'', ''h'', ''B1'', ''h'', ''2'', ''H1'', ''H2'', ''H3'', ''H4'', ''H5'', ''H6'']))
       (map (\<lambda>c. 1) ''12345678901234567890123456789012'')
       (concat (map (\<lambda>m. map (\<lambda>c. Some (frame (of_char c))) m @ [Some 0])
          [''A1'', ''1'', ''A2'', ''1'', ''A3'', ''0'', ''A4'', ''0'', ''B1'', ''1'', ''B2'', ''0'',
           ''B3''])))"
  have "\<exists>s0 s. main_setup ?I = Inr s0 \<and> turns 13 s0 = Inr s \<and> enemyHits s = 7 \<and>
      yourHits s = 3 \<and> console s = []"
    by (simp add: run_defs turn_defs turns_numeral)
  then obtain s0 s where a: "main_setup ?I = Inr s0" "turns 13 s0 = Inr s"
    and b: "enemyHits s = 7" "yourHits s = 3" "console s = []"
    by blast
  from hit_counters_and_game_over [OF a] b
  have "mainLoop s = Some (Inr s) \<and> main ?I = Some (Inr (report s)) \<and>
      console (report s) = [YouLose]"
    by (simp add: totalHits_7)
  with a b show ?thesis by (auto simp: totalHits_7)
qed

text \<open>
  C4, as the code has it: when \<open>readString\<close>, after any number of good bytes that
  fit the buffer, receives a byte whose recomputed parity differs from the parity bit
  received, it prints the message, pulses \<open>char_read\<close> as it did after each good byte,
  stops receiving and returns 1. It drives nothing else on the link (no retransmission is
  asked for), touches nothing but \<open>parity\<close> and the bytes of \<open>inputBuffer\<close> already
  received (no terminator is written), and leaves the polls still to come as they are, so
  the link remains usable. \<open>main\<close> does not look at the value returned: both kinds of
  turn carry on from the state \<open>readString\<close> left, with whatever \<open>inputBuffer\<close> holds.
\<close>

theorem readString_parity_error:
  assumes good: "\<forall>f\<in>set (delivered pre).
        computeParity (drop_bit 1 f) = f AND 1 \<and> drop_bit 1 f \<noteq> 0"
    and room: "length (delivered pre) \<le> bufLen"
    and bad: "computeParity (drop_bit 1 d) \<noteq> d AND 1"
    and polls: "char_recv s = pre @ Some d # rest"
  shows "\<exists>s'. readString s = Inr (1, s') \<and>
     s' = s\<lparr>parity := d AND 1,
            inputBuffer := (\<lambda>j. if j < length (delivered pre)
                                 then drop_bit 1 (delivered pre ! j) else inputBuffer s j),
            wire := wire s @ concat (replicate (Suc (length (delivered pre)))
                               [CharRead 1, CharRead 0]),
            console := console s @ [ParityError d],
            char_recv := rest\<rparr> \<and>
     frames_of (wire s') = frames_of (wire s) \<and>
     remoteTurn s =
       andThen (updateYourBoard (translateInputBuffer s')) (\<lambda>s3.
       andThen (sendString s3) (\<lambda>s4. Inr (s4\<lparr>yourTurn := 1\<rparr>))) \<and>
     (\<forall>g g1. fireLoop g = Inr g1 \<and> sendString g1 = Inr s \<longrightarrow>
        localTurn g =
          andThen (updateEnemyBoard shotsBase s') (\<lambda>s4.
            let s5 = translateInputBuffer s4 in
            andThen
              (if charToInt (inputBuffer s5 0) \<noteq> 0 then
                 andThen (updateEnemyBoard hitsBase s5) (\<lambda>s6.
                   Inr (s6\<lparr>yourHits := yourHits s6 + 1\<rparr>))
               else Inr s5)
              (\<lambda>s7. Inr (s7\<lparr>notValidMove := 1, yourTurn := 0\<rparr>))))"
proof -
  define s' where "s' = s\<lparr>parity := d AND 1,
            inputBuffer := (\<lambda>j. if j < length (delivered pre)
                                 then drop_bit 1 (delivered pre ! j) else inputBuffer s j),
            wire := wire s @ concat (replicate (Suc (length (delivered pre)))
                               [CharRead 1, CharRead 0]),
            console := console s @ [ParityError d],
            char_recv := rest\<rparr>"
  have r: "readString s = Inr (1, s')"
    using readString_loop_parity_error [OF _ good _ bad, of 1 0 rest s] room
    by (simp add: readString_def polls s'_def cong: if_cong)
  have "frames_of (concat (replicate n [CharRead 1, CharRead 0])) = []" for n
    by (induction n) simp_all
  then have f: "frames_of (wire s') = frames_of (wire s)"
    by (simp add: s'_def frames_of_append del: replicate.simps)
  have rt: "remoteTurn s =
       andThen (updateYourBoard (translateInputBuffer s')) (\<lambda>s3.
       andThen (sendString s3) (\<lambda>s4. Inr (s4\<lparr>yourTurn := 1\<rparr>)))"
    by (simp add: remoteTurn_def r andThen_def Let_def)
  have lt: "localTurn g =
          andThen (updateEnemyBoard shotsBase s') (\<lambda>s4.
            let s5 = translateInputBuffer s4 in
            andThen
              (if charToInt (inputBuffer s5 0) \<noteq> 0 then
                 andThen (updateEnemyBoard hitsBase s5) (\<lambda>s6.
                   Inr (s6\<lparr>yourHits := yourHits s6 + 1\<rparr>))
               else Inr s5)
              (\<lambda>s7. Inr (s7\<lparr>notValidMove := 1, yourTurn := 0\<rparr>)))"
    if "fireLoop g = Inr g1 \<and> sendString g1 = Inr s" for g g1
    using that by (simp add: localTurn_def r andThen_def)
  from r f rt lt show ?thesis unfolding s'_def [symmetric] by blast
qed

theorem readString_parity_error_witness:
  "\<exists>g1 s s'.
     fireLoop ((initial (\<lambda>a. 0) (map of_char ''A1'' @ [10]) [1, 1, 1]
                  [None, Some 99, Some 1, Some 0])\<lparr>yourTurn := 1, notValidMove := 1\<rparr>) = Inr g1 \<and>
     sendString g1 = Inr s \<and>
     char_recv s = [None, Some 99] @ Some 1 # [Some 0] \<and>
     readString s = Inr (1, s') \<and>
     console s' = [ParityError 1] \<and> char_recv s' = [Some 0] \<and>
     inputBuffer s' 0 = of_char CHR ''1'' \<and> inputBuffer s' 1 = 0 \<and>
     wire s' = wire s @ [CharRead 1, CharRead 0, CharRead 1, CharRead 0] \<and>
     map_sum id (\<lambda>s. (yourHits s, sram s 0, sram s 8))
       (localTurn ((initial (\<lambda>a. 0) (map of_char ''A1'' @ [10]) [1, 1, 1]
                  [None, Some 99, Some 1, Some 0])\<lparr>yourTurn := 1, notValidMove := 1\<rparr>)) =
     Inr (1, 128, 128)"
proof -
  let ?G = "(initial (\<lambda>a. 0) (map of_char ''A1'' @ [10]) [1, 1, 1]
                  [None, Some 99, Some 1, Some 0])\<lparr>yourTurn := 1, notValidMove := 1\<rparr>"
  have "\<exists>g1 s. fireLoop ?G = Inr g1 \<and> sendString g1 = Inr s \<and>
      char_recv s = [None, Some 99] @ Some 1 # [Some 0] \<and> console s = [] \<and>
      inputBuffer s = (\<lambda>i. 0) \<and> yourShotX s = 1 \<and> yourShotY s = 1 \<and> sram s = (\<lambda>a. 0) \<and>
      yourHits s = 0"
    by (simp add: run_defs turn_defs)
  then obtain g1 s where a: "fireLoop ?G = Inr g1" "sendString g1 = Inr s"
    and p: "char_recv s = [None, Some 99] @ Some 1 # [Some 0]"
    and s: "console s = []" "inputBuffer s = (\<lambda>i. 0)" "yourShotX s = 1" "yourShotY s = 1"
      "sram s = (\<lambda>a. 0)" "yourHits s = 0"
    by blast
  have good: "\<forall>f\<in>set (delivered [None, Some 99]).
        computeParity (drop_bit 1 f) = f AND 1 \<and> drop_bit 1 f \<noteq> 0"
    by (simp add: computeParity_def)
  have room: "length (delivered [None, Some 99]) \<le> bufLen" by (simp add: bufLen_def)
  have bad: "computeParity (drop_bit 1 (1::u8)) \<noteq> 1 AND 1" by (simp add: computeParity_def)
  from readString_parity_error [OF good room bad p]
  obtain s' where r: "readString s = Inr (1, s')"
    and e: "s' = s\<lparr>parity := 1 AND 1,
            inputBuffer := (\<lambda>j. if j < length (delivered [None, Some 99])
                                 then drop_bit 1 (delivered [None, Some 99] ! j) else inputBuffer s j),
            wire := wire s @ concat (replicate (Suc (length (delivered [None, Some 99])))
                               [CharRead 1, CharRead 0]),
            console := console s @ [ParityError 1],
            char_recv := [Some 0]\<rparr>"
    and lt: "\<forall>g g1. fireLoop g = Inr g1 \<and> sendString g1 = Inr s \<longrightarrow>
        localTurn g =
          andThen (updateEnemyBoard shotsBase s') (\<lambda>s4.
            let s5 = translateInputBuffer s4 in
            andThen
              (if charToInt (inputBuffer s5 0) \<noteq> 0 then
                 andThen (updateEnemyBoard hitsBase s5) (\<lambda>s6.
                   Inr (s6\<lparr>yourHits := yourHits s6 + 1\<rparr>))
               else Inr s5)
              (\<lambda>s7. Inr (s7\<lparr>notValidMove := 1, yourTurn := 0\<rparr>)))"
    by blast
  from lt a have "localTurn ?G =
          andThen (updateEnemyBoard shotsBase s') (\<lambda>s4.
            let s5 = translateInputBuffer s4 in
            andThen
              (if charToInt (inputBuffer s5 0) \<noteq> 0 then
                 andThen (updateEnemyBoard hitsBase s5) (\<lambda>s6.
                   Inr (s6\<lparr>yourHits := yourHits s6 + 1\<rparr>))
               else Inr s5)
              (\<lambda>s7. Inr (s7\<lparr>notValidMove := 1, yourTurn := 0\<rparr>)))"
    by blast
  then have "map_sum id (\<lambda>s. (yourHits s, sram s 0, sram s 8)) (localTurn ?G) = Inr (1, 128, 128)"
    by (simp add: e s run_defs turn_defs)
  moreover have "console s' = [ParityError 1]" "char_recv s' = [Some 0]"
    "inputBuffer s' 0 = of_char CHR ''1''" "inputBuffer s' 1 = 0"
    "wire s' = wire s @ [CharRead 1, CharRead 0, CharRead 1, CharRead 0]"
    by (simp_all add: e s)
  ultimately show ?thesis using a p r by blast
qed

text \<open>
  C4 as stated fails: the exchange is not treated as failed. A reply with a parity error in
  its first byte, arriving while \<open>inputBuffer\<close> still holds the \<open>1\<close> of an earlier
  reply, is counted as a hit: the shot is marked on both boards and \<open>yourHits\<close> grows.
\<close>

theorem parity_error_counted_as_hit:
  "map_sum id (\<lambda>s. (yourHits s, sram s 0, sram s 8, console s, yourTurn s))
     (localTurn ((initial (\<lambda>a. 0) (map of_char ''A1'' @ [10]) [1, 1, 1] [Some 98])
        \<lparr>inputBuffer := (\<lambda>i. 0)(0 := of_char CHR ''1''), yourTurn := 1, notValidMove := 1\<rparr>)) =
   Inr (1, 128, 128, [ParityError 98], 0) \<and>
   map_sum id fst
     (readString ((initial (\<lambda>a. 0) [] [] [Some 98])
        \<lparr>inputBuffer := (\<lambda>i. 0)(0 := of_char CHR ''1'')\<rparr>)) = Inr 1"
  by (simp add: run_defs turn_defs)

end
